theory Spec2Isabelle
  imports Main "HOL-Library.Sublist"
begin

section \<open>Rectangles\<close>

text \<open>
  The window manager of \<^verbatim>\<open>lib/winmgr/window.c\<close> works on axis-aligned integer
  rectangles (\<^verbatim>\<open>rect\<close>, fields \<^verbatim>\<open>left top right bottom\<close>). Coordinates are C
  \<^verbatim>\<open>int\<close>s holding character-cell positions; they are modelled as \<^typ>\<open>int\<close>
  (signed overflow is undefined in C, so there is no wrap-around to write out).
  The field \<^verbatim>\<open>top\<close> is called \<open>top_c\<close> here, \<open>top\<close> being a constant of HOL.
\<close>

record rect =
  left :: int
  top_c :: int
  right :: int
  bottom :: int

text \<open>
  The rectangle helpers \<^verbatim>\<open>rect_set\<close>, \<^verbatim>\<open>rect_offset\<close>, \<^verbatim>\<open>rect_intersect\<close>,
  \<^verbatim>\<open>rect_union\<close> and \<^verbatim>\<open>rect_equal\<close> are called by \<^verbatim>\<open>window.c\<close>, but the file
  that defines them is not among the sources at hand. The spec names them "intersection,
  union, offset, equality" on axis-aligned integer rectangles; each is modelled from that
  and from the way \<^verbatim>\<open>window.c\<close> calls it.
\<close>

text \<open>
  Modelled from the spec: \<^verbatim>\<open>rect_set(&rc, left, top, right, bottom)\<close>. The argument order
  is fixed by \<^verbatim>\<open>winmgr_init\<close> and \<^verbatim>\<open>winmgr_resize\<close>, which set the root to
  \<^verbatim>\<open>(0, 0, cols, rows)\<close> and read its width as \<^verbatim>\<open>right - left\<close>.
\<close>

definition rect_set :: "int \<Rightarrow> int \<Rightarrow> int \<Rightarrow> int \<Rightarrow> rect" where
  "rect_set l t r b = \<lparr>left = l, top_c = t, right = r, bottom = b\<rparr>"

text \<open>
  Modelled from the spec: \<^verbatim>\<open>rect_offset(&rc, dx, dy)\<close>, "offset": the rectangle moved by
  \<open>dx\<close> columns and \<open>dy\<close> lines.
\<close>

definition rect_offset :: "rect \<Rightarrow> int \<Rightarrow> int \<Rightarrow> rect" where
  "rect_offset r dx dy =
     \<lparr>left = left r + dx, top_c = top_c r + dy, right = right r + dx, bottom = bottom r + dy\<rparr>"

text \<open>
  Modelled from the spec: a rectangle is empty when it holds no cell (the test by which
  \<^verbatim>\<open>rect_intersect\<close> answers whether "the intersection becomes empty").
\<close>

definition rect_empty :: "rect \<Rightarrow> bool" where
  "rect_empty r = (right r \<le> left r \<or> bottom r \<le> top_c r)"

text \<open>
  Modelled from the spec: \<^verbatim>\<open>rect_intersect(&dst, &a, &b)\<close>, "intersection". The C function
  returns non-zero when the intersection is not empty and writes it to \<^verbatim>\<open>dst\<close>; the
  model returns both. (What is written to \<^verbatim>\<open>dst\<close> when the intersection is empty is
  not said; the model keeps the componentwise maximum and minimum.)
\<close>

definition rect_intersect :: "rect \<Rightarrow> rect \<Rightarrow> bool \<times> rect" where
  "rect_intersect a b =
     (let d = \<lparr>left = max (left a) (left b), top_c = max (top_c a) (top_c b),
               right = min (right a) (right b), bottom = min (bottom a) (bottom b)\<rparr>
      in (\<not> rect_empty d, d))"

text \<open>
  Modelled from the spec: \<^verbatim>\<open>rect_union(&dst, &a, &b)\<close>, "union": the smallest rectangle
  that holds both.
\<close>

definition rect_union :: "rect \<Rightarrow> rect \<Rightarrow> rect" where
  "rect_union a b =
     \<lparr>left = min (left a) (left b), top_c = min (top_c a) (top_c b),
      right = max (right a) (right b), bottom = max (bottom a) (bottom b)\<rparr>"

text \<open>Modelled from the spec: \<^verbatim>\<open>rect_equal(&a, &b)\<close>, "equality": the same four coordinates.\<close>

definition rect_equal :: "rect \<Rightarrow> rect \<Rightarrow> bool" where
  "rect_equal a b =
     (left a = left b \<and> top_c a = top_c b \<and> right a = right b \<and> bottom a = bottom b)"

section \<open>Windows and the manager\<close>

text \<open>
  \<^verbatim>\<open>struct window\<close> links windows by \<^verbatim>\<open>parent\<close>, \<^verbatim>\<open>child\<close> (first child) and
  \<^verbatim>\<open>next\<close> (next sibling). The links built by \<^verbatim>\<open>new_window\<close> form a tree, which is what
  the model stores: a node carries the scalar fields of the struct and the list of its
  children in sibling order (\<^verbatim>\<open>child\<close>, then \<^verbatim>\<open>next\<close>, \<^verbatim>\<open>next\<close>, ...); the parent of a
  node is the node that holds it. A window pointer is the address \<open>w_addr\<close> of the node
  (a number handed out by the allocation counter of the manager), \<^verbatim>\<open>NULL\<close> is \<open>None\<close>.
  Handlers and curses surfaces (\<^verbatim>\<open>WINDOW *\<close>) are opaque handles; surface \<open>0\<close> is
  \<^verbatim>\<open>stdscr\<close>, handler \<open>0\<close> is the null handler.

  A pointer that names no window of the tree (a dangling pointer) is outside the defined
  behaviour of the C code; the operations below leave the state as it is for such a
  pointer and answer \<open>None\<close> where they return a value.

  Modelled here: \<^verbatim>\<open>winmgr_init\<close>, \<^verbatim>\<open>winmgr_resize\<close>, \<^verbatim>\<open>find_invalid\<close>,
  \<^verbatim>\<open>winmgr_update\<close>, \<^verbatim>\<open>window_create\<close>, \<^verbatim>\<open>new_window\<close>,
  \<^verbatim>\<open>window_destroy\<close>, \<^verbatim>\<open>window_set_handler\<close>, \<^verbatim>\<open>window_set_visible\<close>,
  \<^verbatim>\<open>window_invalidate_rect\<close>, \<^verbatim>\<open>window_invalidate\<close>, \<^verbatim>\<open>window_set_pos\<close>,
  \<^verbatim>\<open>window_find_window\<close> and \<^verbatim>\<open>window_rect\<close>. Not modelled, since no property
  below speaks about them: \<^verbatim>\<open>winmgr_shutdown\<close>, the signal handler, and the accessors
  \<^verbatim>\<open>window_WIN\<close> and \<^verbatim>\<open>winmgr_resize_fd\<close>.
\<close>

type_synonym handler = nat
type_synonym WINDOW = nat

record window_attrs =
  w_addr :: nat
  w_win :: WINDOW
  w_invalid :: bool
  w_visible :: bool
  w_id :: int
  w_rc :: rect
  w_h :: handler

datatype window = Window (attrs: window_attrs) (child: "window list")

datatype message =
    WM_CREATE nat
  | WM_DESTROY
  | WM_PAINT
  | WM_POSCHANGED rect rect

text \<open>
  Calls that leave the window manager (curses, the message queue, the handlers, the
  resize pipe) are recorded in the order they are issued.
\<close>

datatype event =
    Newwin int int int int
  | Wresize WINDOW int int
  | Mvwin WINDOW int int
  | Wnoutrefresh WINDOW
  | Delwin WINDOW
  | Doupdate
  | Resizeterm int int
  | Hook_readable
  | Handler_call handler message
  | Pipe_read

record winmgr =
  wm_root :: window
  wm_invalid :: bool
  next_addr :: nat
  next_win :: WINDOW
  events :: "event list"
  sigwinch_installed :: bool
  pipe_signaled :: bool

text \<open>
  What the code cannot decide by itself is a parameter: what a handler does when it is
  called (any change of the manager's state, since a handler may call the public
  operations), and whether a curses call succeeds.
\<close>

record env =
  hc :: "handler \<Rightarrow> message \<Rightarrow> winmgr \<Rightarrow> winmgr"
  newwin_ok :: "winmgr \<Rightarrow> int \<Rightarrow> int \<Rightarrow> int \<Rightarrow> int \<Rightarrow> bool"
  wresize_ok :: "winmgr \<Rightarrow> WINDOW \<Rightarrow> int \<Rightarrow> int \<Rightarrow> bool"
  mvwin_ok :: "winmgr \<Rightarrow> WINDOW \<Rightarrow> int \<Rightarrow> int \<Rightarrow> bool"

subsection \<open>Following pointers\<close>

fun lookup :: "window \<Rightarrow> nat \<Rightarrow> window option"
  and lookup_list :: "window list \<Rightarrow> nat \<Rightarrow> window option" where
  "lookup (Window a cs) p = (if w_addr a = p then Some (Window a cs) else lookup_list cs p)"
| "lookup_list [] p = None"
| "lookup_list (c # cs) p = (case lookup c p of Some t \<Rightarrow> Some t | None \<Rightarrow> lookup_list cs p)"

text \<open>\<open>parents t p\<close>: the chain \<^verbatim>\<open>p->parent, p->parent->parent, ...\<close> up to the root.\<close>

fun parents :: "window \<Rightarrow> nat \<Rightarrow> window_attrs list option"
  and parents_list :: "window list \<Rightarrow> nat \<Rightarrow> window_attrs list option" where
  "parents (Window a cs) p =
     (if w_addr a = p then Some []
      else (case parents_list cs p of None \<Rightarrow> None | Some as \<Rightarrow> Some (as @ [a])))"
| "parents_list [] p = None"
| "parents_list (c # cs) p =
     (case parents c p of Some as \<Rightarrow> Some as | None \<Rightarrow> parents_list cs p)"

text \<open>\<open>modify p f t\<close>: the tree after the node at address \<open>p\<close> is replaced by \<open>f\<close> of it.\<close>

fun modify :: "nat \<Rightarrow> (window \<Rightarrow> window) \<Rightarrow> window \<Rightarrow> window"
  and modify_list :: "nat \<Rightarrow> (window \<Rightarrow> window) \<Rightarrow> window list \<Rightarrow> window list" where
  "modify p f (Window a cs) =
     (if w_addr a = p then f (Window a cs) else Window a (modify_list p f cs))"
| "modify_list p f [] = []"
| "modify_list p f (c # cs) =
     (case lookup c p of Some t \<Rightarrow> modify p f c # cs | None \<Rightarrow> c # modify_list p f cs)"

definition set_attrs :: "nat \<Rightarrow> (window_attrs \<Rightarrow> window_attrs) \<Rightarrow> window \<Rightarrow> window" where
  "set_attrs p g t = modify p (\<lambda>n. Window (g (attrs n)) (child n)) t"

definition handler_call :: "env \<Rightarrow> handler \<Rightarrow> message \<Rightarrow> winmgr \<Rightarrow> winmgr" where
  "handler_call E hn m s = hc E hn m (s\<lparr>events := events s @ [Handler_call hn m]\<rparr>)"

section \<open>Invalidation\<close>

text \<open>
  \<^verbatim>\<open>window_invalidate_rect\<close> on the subtree of \<open>w\<close>: returns the subtree and the number
  of leaves it marked (each one sets \<^verbatim>\<open>wm->invalid\<close> and calls
  \<^verbatim>\<open>message_hook_readable\<close>).
\<close>

fun invalidate_rect_tree :: "window \<Rightarrow> rect \<Rightarrow> window \<times> nat"
  and invalidate_rect_children :: "window list \<Rightarrow> rect \<Rightarrow> window list \<times> nat" where
  "invalidate_rect_tree (Window a cs) r =
     (if \<not> w_visible a then (Window a cs, 0)
      else (case rect_intersect (w_rc a) r of (ok, rcT) \<Rightarrow>
        if \<not> ok then (Window a cs, 0)
        else if cs \<noteq> [] then
          (case invalidate_rect_children cs rcT of (cs', n) \<Rightarrow> (Window a cs', n))
        else (Window (a\<lparr>w_invalid := True\<rparr>) cs, 1)))"
| "invalidate_rect_children [] r = ([], 0)"
| "invalidate_rect_children (c # cs) r =
     (case invalidate_rect_tree c r of (c', n) \<Rightarrow>
        (case invalidate_rect_children cs r of (cs', m) \<Rightarrow> (c' # cs', n + m)))"

definition window_invalidate_rect :: "winmgr \<Rightarrow> nat \<Rightarrow> rect \<Rightarrow> winmgr" where
  "window_invalidate_rect s w r =
     (case lookup (wm_root s) w of
        None \<Rightarrow> s
      | Some t \<Rightarrow>
          (case invalidate_rect_tree t r of (t', n) \<Rightarrow>
             s\<lparr>wm_root := modify w (\<lambda>_. t') (wm_root s),
               wm_invalid := (wm_invalid s \<or> 0 < n),
               events := events s @ replicate n Hook_readable\<rparr>))"

text \<open>The loop of \<^verbatim>\<open>window_invalidate\<close> that clips \<^verbatim>\<open>rcT\<close> to the parents.\<close>

fun clip_to_parents :: "rect \<Rightarrow> window_attrs list \<Rightarrow> rect option" where
  "clip_to_parents rcT [] = Some rcT"
| "clip_to_parents rcT (p # ps) =
     (if \<not> w_visible p then None
      else (case rect_intersect rcT (w_rc p) of (ok, rcT') \<Rightarrow>
        if \<not> ok then None else clip_to_parents rcT' ps))"

definition root_addr :: "winmgr \<Rightarrow> nat" where
  "root_addr s = w_addr (attrs (wm_root s))"

definition window_invalidate :: "winmgr \<Rightarrow> nat option \<Rightarrow> winmgr" where
  "window_invalidate s wo =
     (let w = (case wo of None \<Rightarrow> root_addr s | Some w \<Rightarrow> w) in
      case lookup (wm_root s) w of
        None \<Rightarrow> s
      | Some t \<Rightarrow>
          if \<not> w_visible (attrs t) then s
          else (case parents (wm_root s) w of
                  None \<Rightarrow> s
                | Some ps \<Rightarrow>
                    (case clip_to_parents (w_rc (attrs t)) ps of
                       None \<Rightarrow> s
                     | Some rcT \<Rightarrow> window_invalidate_rect s w rcT)))"

section \<open>The paint scheduler\<close>

fun find_invalid :: "window \<Rightarrow> nat option"
  and find_invalid_children :: "window list \<Rightarrow> nat option" where
  "find_invalid (Window a cs) =
     (if \<not> w_visible a then None
      else if cs \<noteq> [] then find_invalid_children cs
      else if w_invalid a then Some (w_addr a)
      else None)"
| "find_invalid_children [] = None"
| "find_invalid_children (c # cs) =
     (case find_invalid c of Some wT \<Rightarrow> Some wT | None \<Rightarrow> find_invalid_children cs)"

text \<open>
  One painting iteration of \<^verbatim>\<open>winmgr_update\<close> for the window \<open>w\<close> that the search
  found: clear its flag, call its handler with \<^verbatim>\<open>WM_PAINT\<close>, stage its surface
  (\<^verbatim>\<open>w->win\<close> is read after the handler has returned).
\<close>

definition paint :: "env \<Rightarrow> winmgr \<Rightarrow> nat \<Rightarrow> winmgr" where
  "paint E s w =
     (case lookup (wm_root s) w of
        None \<Rightarrow> s
      | Some t \<Rightarrow>
          (let s1 = s\<lparr>wm_root := set_attrs w (\<lambda>a. a\<lparr>w_invalid := False\<rparr>) (wm_root s)\<rparr>;
               s2 = handler_call E (w_h (attrs t)) WM_PAINT s1
           in (case lookup (wm_root s2) w of
                 None \<Rightarrow> s2
               | Some t' \<Rightarrow> s2\<lparr>events := events s2 @ [Wnoutrefresh (w_win (attrs t'))]\<rparr>)))"

text \<open>
  \<^verbatim>\<open>winmgr_update\<close>: the loop \<^verbatim>\<open>while (wm->invalid)\<close>. It need not terminate, so the
  result is an option: \<open>None\<close> is a drain that never returns.
\<close>

partial_function (option) winmgr_update :: "env \<Rightarrow> winmgr \<Rightarrow> winmgr option" where
  "winmgr_update E s =
     (if wm_invalid s then
        (case find_invalid (wm_root s) of
           Some w \<Rightarrow> winmgr_update E (paint E s w)
         | None \<Rightarrow> winmgr_update E (s\<lparr>events := events s @ [Doupdate], wm_invalid := False\<rparr>))
      else Some s)"

declare winmgr_update.simps [code]

section \<open>Window operations\<close>

text \<open>
  \<^verbatim>\<open>new_window\<close> for a window with a parent: allocate the node, append it to the
  siblings, notify the client with \<^verbatim>\<open>WM_CREATE\<close>, invalidate it. (The root is made by
  \<open>winmgr_init\<close> below, the only caller that passes no parent.)
\<close>

definition new_window ::
  "env \<Rightarrow> winmgr \<Rightarrow> nat \<Rightarrow> WINDOW \<Rightarrow> rect \<Rightarrow> handler \<Rightarrow> int \<Rightarrow> nat \<times> winmgr" where
  "new_window E s parent wn r hn i =
     (let w = next_addr s;
          node = Window \<lparr>w_addr = w, w_win = wn, w_invalid = False, w_visible = True,
                          w_id = i, w_rc = r, w_h = hn\<rparr> [];
          s1 = s\<lparr>next_addr := Suc w,
                 wm_root := modify parent (\<lambda>p. Window (attrs p) (child p @ [node])) (wm_root s)\<rparr>;
          s2 = handler_call E hn (WM_CREATE w) s1
      in (w, window_invalidate s2 (Some w)))"

definition window_create ::
  "env \<Rightarrow> winmgr \<Rightarrow> nat option \<Rightarrow> rect \<Rightarrow> handler \<Rightarrow> int \<Rightarrow> nat option \<times> winmgr" where
  "window_create E s parent r hn i =
     (let p = (case parent of None \<Rightarrow> root_addr s | Some p \<Rightarrow> p) in
      case lookup (wm_root s) p of
        None \<Rightarrow> (None, s)
      | Some pt \<Rightarrow>
          (let rcT = rect_offset r (left (w_rc (attrs pt))) (top_c (w_rc (attrs pt)));
               rcT = snd (rect_intersect rcT (w_rc (attrs (wm_root s))));
               s1 = s\<lparr>events := events s @
                      [Newwin (bottom r - top_c r) (right r - left r) (top_c r) (left r)]\<rparr>
           in if \<not> newwin_ok E s (bottom r - top_c r) (right r - left r) (top_c r) (left r)
              then (None, s1)
              else (case new_window E (s1\<lparr>next_win := Suc (next_win s)\<rparr>) p (next_win s) rcT hn i
                    of (w, s2) \<Rightarrow> (Some w, s2))))"

text \<open>
  \<^verbatim>\<open>winmgr_init\<close>: the manager pointer \<^verbatim>\<open>s_winmgr\<close> is an option. With a manager it
  returns at once; without one it builds the root on \<^verbatim>\<open>stdscr\<close> with the size
  \<open>(cx, cy)\<close> that \<^verbatim>\<open>getmaxyx\<close> reports. \<open>sig_ok\<close> tells whether \<^verbatim>\<open>sigaction\<close>
  succeeds; when it fails the manager is shut down again and there is none.
  (\<^verbatim>\<open>s_sigwinch_installed\<close> is 0 whenever there is no manager, so the branch that
  installs the resize handler is always taken.)
\<close>

definition winmgr_init :: "env \<Rightarrow> int \<Rightarrow> int \<Rightarrow> bool \<Rightarrow> winmgr option \<Rightarrow> winmgr option" where
  "winmgr_init E cx cy sig_ok wm =
     (case wm of
        Some s \<Rightarrow> Some s
      | None \<Rightarrow>
          (let node = Window \<lparr>w_addr = 0, w_win = 0, w_invalid = False, w_visible = True,
                               w_id = 0, w_rc = rect_set 0 0 cx cy, w_h = 0\<rparr> [];
               s0 = \<lparr>wm_root = node, wm_invalid = False, next_addr = 1, next_win = 1,
                     events = [], sigwinch_installed = False, pipe_signaled = False\<rparr>;
               s1 = handler_call E 0 (WM_CREATE 0) s0;
               s2 = window_invalidate s1 (Some 0)
           in if sig_ok then Some (s2\<lparr>pipe_signaled := False, sigwinch_installed := True\<rparr>)
              else None))"

definition window_set_handler :: "winmgr \<Rightarrow> nat option \<Rightarrow> handler \<Rightarrow> handler option \<times> winmgr" where
  "window_set_handler s wo hn =
     (let w = (case wo of None \<Rightarrow> root_addr s | Some w \<Rightarrow> w) in
      case lookup (wm_root s) w of
        None \<Rightarrow> (None, s)
      | Some t \<Rightarrow>
          (Some (w_h (attrs t)), s\<lparr>wm_root := set_attrs w (\<lambda>a. a\<lparr>w_h := hn\<rparr>) (wm_root s)\<rparr>))"

text \<open>\<^verbatim>\<open>w->parent\<close>: the first element of the chain of parents.\<close>

definition parent_of :: "window \<Rightarrow> nat \<Rightarrow> window_attrs option" where
  "parent_of t w = (case parents t w of Some (p # ps) \<Rightarrow> Some p | _ \<Rightarrow> None)"

definition window_set_visible :: "winmgr \<Rightarrow> nat \<Rightarrow> bool \<Rightarrow> winmgr" where
  "window_set_visible s w vis =
     (case lookup (wm_root s) w of
        None \<Rightarrow> s
      | Some t \<Rightarrow>
          if \<not> vis then
            (if w_visible (attrs t) then
               (let s1 = s\<lparr>wm_root := set_attrs w (\<lambda>a. a\<lparr>w_visible := False\<rparr>) (wm_root s)\<rparr>
                in case parent_of (wm_root s1) w of
                     None \<Rightarrow> s1
                   | Some p \<Rightarrow> window_invalidate_rect s1 (w_addr p) (w_rc p))
             else s)
          else
            (if \<not> w_visible (attrs t) then
               window_invalidate
                 (s\<lparr>wm_root := set_attrs w (\<lambda>a. a\<lparr>w_visible := True\<rparr>) (wm_root s)\<rparr>) (Some w)
             else s))"

text \<open>The two curses calls of \<^verbatim>\<open>window_set_pos\<close>: the call is recorded, the result is the environment's.\<close>

definition wresize :: "env \<Rightarrow> WINDOW \<Rightarrow> int \<Rightarrow> int \<Rightarrow> winmgr \<Rightarrow> bool \<times> winmgr" where
  "wresize E wn lines cols s =
     (wresize_ok E s wn lines cols, s\<lparr>events := events s @ [Wresize wn lines cols]\<rparr>)"

definition mvwin :: "env \<Rightarrow> WINDOW \<Rightarrow> int \<Rightarrow> int \<Rightarrow> winmgr \<Rightarrow> bool \<times> winmgr" where
  "mvwin E wn y x s =
     (mvwin_ok E s wn y x, s\<lparr>events := events s @ [Mvwin wn y x]\<rparr>)"

text \<open>
  The block of \<^verbatim>\<open>window_set_pos\<close> that runs when the origin changes: pre-size, then
  move. \<open>wrc\<close> is \<^verbatim>\<open>w->rc\<close>, \<open>rrc\<close> the root's rectangle.
\<close>

definition presize_and_move ::
  "env \<Rightarrow> WINDOW \<Rightarrow> rect \<Rightarrow> rect \<Rightarrow> rect \<Rightarrow> winmgr \<Rightarrow> bool \<times> winmgr" where
  "presize_and_move E wn wrc rc_new rrc s =
     (let height_new = bottom rc_new - top_c rc_new;
          width_new = right rc_new - left rc_new;
          width_adj = max 0 ((left wrc + width_new) - right rrc);
          height_adj = max 0 ((top_c wrc + height_new) - bottom rrc);
          (ok, s1) = (if width_adj \<noteq> 0 \<or> height_adj \<noteq> 0
                      then wresize E wn (height_new - height_adj) (width_new - width_adj) s
                      else (True, s))
      in if \<not> ok then (False, s1) else mvwin E wn (top_c rc_new) (left rc_new) s1)"

definition window_set_pos :: "env \<Rightarrow> winmgr \<Rightarrow> nat \<Rightarrow> rect \<Rightarrow> bool \<times> winmgr" where
  "window_set_pos E s w r =
     (case lookup (wm_root s) w of
        None \<Rightarrow> (False, s)
      | Some t \<Rightarrow>
          (let par = parent_of (wm_root s) w;
               wrc = w_rc (attrs t);
               wn = w_win (attrs t);
               rrc = w_rc (attrs (wm_root s));
               rc_new = (case par of
                           Some p \<Rightarrow> rect_offset r (left (w_rc p)) (top_c (w_rc p))
                         | None \<Rightarrow> r)
           in if rect_equal wrc rc_new then (True, s)
              else
                (let rc_new = (if w \<noteq> root_addr s then snd (rect_intersect rc_new rrc) else rc_new);
                     height_new = bottom rc_new - top_c rc_new;
                     width_new = right rc_new - left rc_new;
                     (ok, s1) = (if left rc_new \<noteq> left wrc \<or> top_c rc_new \<noteq> top_c wrc
                                 then presize_and_move E wn wrc rc_new rrc s
                                 else (True, s))
                 in if \<not> ok then (False, s1)
                    else
                      (let (ok2, s2) = wresize E wn height_new width_new s1
                       in if \<not> ok2 then (False, s2)
                          else
                            (let rc_old = wrc;
                                 s3 = s2\<lparr>wm_root := set_attrs w (\<lambda>a. a\<lparr>w_rc := rc_new\<rparr>) (wm_root s2)\<rparr>;
                                 rc_invalid = rect_union rc_old rc_new;
                                 s4 = (case par of
                                         Some p \<Rightarrow> window_invalidate_rect s3 (w_addr p) rc_invalid
                                       | None \<Rightarrow> window_invalidate_rect s3 w rc_invalid);
                                 (rc_old', rc_new') =
                                    (case par of
                                       Some p \<Rightarrow>
                                         (rect_offset rc_old (- left (w_rc p)) (- top_c (w_rc p)),
                                          rect_offset rc_new (- left (w_rc p)) (- top_c (w_rc p)))
                                     | None \<Rightarrow> (rc_old, rc_new))
                             in (True, handler_call E (w_h (attrs t)) (WM_POSCHANGED rc_old' rc_new') s4))))))"

definition window_find_window :: "winmgr \<Rightarrow> nat option \<Rightarrow> int \<Rightarrow> nat option" where
  "window_find_window s wo i =
     (let w = (case wo of None \<Rightarrow> root_addr s | Some w \<Rightarrow> w) in
      case lookup (wm_root s) w of
        None \<Rightarrow> None
      | Some t \<Rightarrow> map_option (\<lambda>c. w_addr (attrs c)) (find (\<lambda>c. w_id (attrs c) = i) (child t)))"

text \<open>\<^verbatim>\<open>window_rect\<close>: the rectangle written to \<^verbatim>\<open>*rc\<close>; \<open>None\<close> for a pointer to no window.\<close>

definition window_rect :: "winmgr \<Rightarrow> nat option \<Rightarrow> rect option" where
  "window_rect s wo =
     (let w = (case wo of None \<Rightarrow> root_addr s | Some w \<Rightarrow> w) in
      case lookup (wm_root s) w of
        None \<Rightarrow> None
      | Some t \<Rightarrow>
          (case parent_of (wm_root s) w of
             None \<Rightarrow> Some (w_rc (attrs t))
           | Some p \<Rightarrow> Some (rect_offset (w_rc (attrs t)) (- left (w_rc p)) (- top_c (w_rc p)))))"

text \<open>
  \<^verbatim>\<open>winmgr_resize\<close>: \<open>sz\<close> is what the \<^verbatim>\<open>TIOCGWINSZ\<close> query answers, \<open>None\<close> when it
  fails, else \<^verbatim>\<open>(ws_col, ws_row)\<close> (unsigned shorts). The result is an option because
  the routine ends with \<^verbatim>\<open>winmgr_update\<close>.
\<close>

definition winmgr_resize :: "env \<Rightarrow> winmgr \<Rightarrow> (nat \<times> nat) option \<Rightarrow> winmgr option" where
  "winmgr_resize E s sz =
     (let s1 = (if sigwinch_installed s \<and> pipe_signaled s
                then s\<lparr>events := events s @ [Pipe_read], pipe_signaled := False\<rparr>
                else s)
      in case sz of
           None \<Rightarrow> Some s1
         | Some (ws_col, ws_row) \<Rightarrow>
             (let rrc = w_rc (attrs (wm_root s1));
                  width = right rrc - left rrc;
                  height = bottom rrc - top_c rrc
              in if width = int ws_col \<and> height = int ws_row then Some s1
                 else
                   (let s2 = s1\<lparr>events := events s1 @ [Resizeterm (int ws_row) (int ws_col)]\<rparr>;
                        (ok, s3) = window_set_pos E s2 (root_addr s2)
                                      (rect_set 0 0 (int ws_col) (int ws_row))
                    in winmgr_update E s3)))"

subsection \<open>Destroying a window\<close>

text \<open>
  The unlink loop of \<^verbatim>\<open>window_destroy\<close>: the first child at the address \<open>w\<close> is taken
  out of the parent's child list.
\<close>

fun remove_child :: "nat \<Rightarrow> window list \<Rightarrow> window list" where
  "remove_child w [] = []"
| "remove_child w (c # cs) = (if w_addr (attrs c) = w then cs else c # remove_child w cs)"

text \<open>
  What \<^verbatim>\<open>window_destroy\<close> does once the loop over the children has ended: notify the
  handler with \<^verbatim>\<open>WM_DESTROY\<close>, unlink \<open>w\<close> from its parent (read after the handler
  has returned), delete its surface unless it is \<^verbatim>\<open>stdscr\<close>, free it. For a window
  without a parent (the root) nothing is unlinked; the node is freed in C while
  \<^verbatim>\<open>wm->root\<close> still points to it, and the model keeps the node.
\<close>

definition destroy_finish :: "env \<Rightarrow> winmgr \<Rightarrow> nat \<Rightarrow> winmgr" where
  "destroy_finish E s w =
     (case lookup (wm_root s) w of
        None \<Rightarrow> s
      | Some t \<Rightarrow>
          (let s1 = handler_call E (w_h (attrs t)) WM_DESTROY s in
           case lookup (wm_root s1) w of
             None \<Rightarrow> s1
           | Some t1 \<Rightarrow>
               (let s2 = (case parent_of (wm_root s1) w of
                            None \<Rightarrow> s1
                          | Some p \<Rightarrow>
                              s1\<lparr>wm_root :=
                                   modify (w_addr p)
                                     (\<lambda>n. Window (attrs n) (remove_child w (child n)))
                                     (wm_root s1)\<rparr>)
                in if w_win (attrs t1) \<noteq> 0
                   then s2\<lparr>events := events s2 @ [Delwin (w_win (attrs t1))]\<rparr>
                   else s2)))"

text \<open>
  \<^verbatim>\<open>window_destroy\<close>: as long as \<^verbatim>\<open>w->child\<close> is not null the first child is
  destroyed and \<^verbatim>\<open>w->child\<close> is read again; then the rest runs. Handlers are called on
  the way, so the loop need not end: the result is an option, \<open>None\<close> for a call that
  never returns.
\<close>

partial_function (option) window_destroy :: "env \<Rightarrow> winmgr \<Rightarrow> nat \<Rightarrow> winmgr option" where
  "window_destroy E s w =
     (case lookup (wm_root s) w of
        None \<Rightarrow> Some s
      | Some t \<Rightarrow>
          (case child t of
             [] \<Rightarrow> Some (destroy_finish E s w)
           | c # cs \<Rightarrow>
               Option.bind (window_destroy E s (w_addr (attrs c)))
                 (\<lambda>s'. window_destroy E s' w)))"

declare window_destroy.simps [code]

section \<open>Notions of the specification\<close>

text \<open>
  The specification speaks of a rectangle "clipped by the ancestors", of leaves that are
  "visible with all ancestors visible", of "windows with children" and of "the number of
  commits". These are defined here from its words, to be compared with what the code does.
\<close>

text \<open>The working rectangle intersected with the rectangle of each window of a chain in turn.\<close>

fun clip_rect :: "rect \<Rightarrow> window_attrs list \<Rightarrow> rect" where
  "clip_rect r [] = r"
| "clip_rect r (p # ps) = clip_rect (snd (rect_intersect r (w_rc p))) ps"

text \<open>
  A chain of windows (from a window down to one of its descendants) exposes a region when
  every window of the chain is visible and the region clipped by all of them is not empty.
\<close>

definition exposed :: "rect \<Rightarrow> window_attrs list \<Rightarrow> bool" where
  "exposed r path = (list_all w_visible path \<and> \<not> rect_empty (clip_rect r path))"

text \<open>
  The subtree in which precisely the leaves whose chain from the top of the subtree exposes
  the region \<open>r\<close> carry the invalid flag in addition; \<open>up\<close> is the chain above the node.
\<close>

fun mark_exposed :: "rect \<Rightarrow> window_attrs list \<Rightarrow> window \<Rightarrow> window" where
  "mark_exposed r up (Window a cs) =
     Window (if cs = [] \<and> exposed r (up @ [a]) then a\<lparr>w_invalid := True\<rparr> else a)
            (map (mark_exposed r (up @ [a])) cs)"

text \<open>The leaves of a subtree whose chain from the top of the subtree exposes the region \<open>r\<close>.\<close>

fun exposed_leaves :: "rect \<Rightarrow> window_attrs list \<Rightarrow> window \<Rightarrow> window_attrs list" where
  "exposed_leaves r up (Window a cs) =
     (if cs = [] then (if exposed r (up @ [a]) then [a] else [])
      else concat (map (exposed_leaves r (up @ [a])) cs))"

text \<open>The tree with one more leaf, appended to the children of the window at address \<open>p\<close>.\<close>

definition link_leaf :: "nat \<Rightarrow> window_attrs \<Rightarrow> window \<Rightarrow> window" where
  "link_leaf p a t = modify p (\<lambda>n. Window (attrs n) (child n @ [Window a []])) t"

text \<open>The windows that have one or more children, and the leaves reachable through visible windows.\<close>

fun parent_attrs :: "window \<Rightarrow> window_attrs list"
  and parent_attrs_list :: "window list \<Rightarrow> window_attrs list" where
  "parent_attrs (Window a cs) = (if cs = [] then [] else a # parent_attrs_list cs)"
| "parent_attrs_list [] = []"
| "parent_attrs_list (c # cs) = parent_attrs c @ parent_attrs_list cs"

fun leaf_attrs :: "window \<Rightarrow> window_attrs list"
  and leaf_attrs_list :: "window list \<Rightarrow> window_attrs list" where
  "leaf_attrs (Window a cs) = (if cs = [] then [a] else leaf_attrs_list cs)"
| "leaf_attrs_list [] = []"
| "leaf_attrs_list (c # cs) = leaf_attrs c @ leaf_attrs_list cs"

fun visible_leaves :: "window \<Rightarrow> window_attrs list"
  and visible_leaves_list :: "window list \<Rightarrow> window_attrs list" where
  "visible_leaves (Window a cs) =
     (if \<not> w_visible a then [] else if cs = [] then [a] else visible_leaves_list cs)"
| "visible_leaves_list [] = []"
| "visible_leaves_list (c # cs) = visible_leaves c @ visible_leaves_list cs"

text \<open>
  The windows that have one or more children, in tree order: the address of each with its
  invalid flag.
\<close>

definition parent_flags :: "winmgr \<Rightarrow> (nat \<times> bool) list" where
  "parent_flags s = map (\<lambda>a. (w_addr a, w_invalid a)) (parent_attrs (wm_root s))"

definition invalid_leaf_showing :: "winmgr \<Rightarrow> bool" where
  "invalid_leaf_showing s = list_ex w_invalid (visible_leaves (wm_root s))"

definition commits :: "winmgr \<Rightarrow> nat" where
  "commits s = count_list (events s) Doupdate"

text \<open>
  A parent-relative rectangle clipped to the root's bounds: made absolute with the
  parent's origin, intersected with the root's rectangle, made relative again.
\<close>

definition clipped_to_root :: "winmgr \<Rightarrow> nat \<Rightarrow> rect \<Rightarrow> rect" where
  "clipped_to_root s w r =
     (case parent_of (wm_root s) w of
        None \<Rightarrow> snd (rect_intersect r (w_rc (attrs (wm_root s))))
      | Some p \<Rightarrow>
          rect_offset
            (snd (rect_intersect (rect_offset r (left (w_rc p)) (top_c (w_rc p)))
                                 (w_rc (attrs (wm_root s)))))
            (- left (w_rc p)) (- top_c (w_rc p)))"


text \<open>All windows of a subtree, parents before children, and how many of them are invalid.\<close>

fun all_attrs :: "window \<Rightarrow> window_attrs list"
  and all_attrs_list :: "window list \<Rightarrow> window_attrs list" where
  "all_attrs (Window a cs) = a # all_attrs_list cs"
| "all_attrs_list [] = []"
| "all_attrs_list (c # cs) = all_attrs c @ all_attrs_list cs"

definition count_invalid :: "winmgr \<Rightarrow> nat" where
  "count_invalid s = length (filter w_invalid (all_attrs (wm_root s)))"

definition distinct_addrs :: "winmgr \<Rightarrow> bool" where
  "distinct_addrs s = distinct (map w_addr (all_attrs (wm_root s)))"

text \<open>The number of windows of a subtree.\<close>

fun count_windows :: "window \<Rightarrow> nat"
  and count_windows_list :: "window list \<Rightarrow> nat" where
  "count_windows (Window a cs) = Suc (count_windows_list cs)"
| "count_windows_list [] = 0"
| "count_windows_list (c # cs) = count_windows c + count_windows_list cs"

text \<open>Two windows at the same address with the same rectangle.\<close>

definition same_geom :: "window_attrs \<Rightarrow> window_attrs \<Rightarrow> bool" where
  "same_geom a b = (w_addr a = w_addr b \<and> w_rc a = w_rc b)"

text \<open>Two trees of the same shape whose windows are related one by one.\<close>

fun tree_rel :: "(window_attrs \<Rightarrow> window_attrs \<Rightarrow> bool) \<Rightarrow> window \<Rightarrow> window \<Rightarrow> bool"
  and trees_rel :: "(window_attrs \<Rightarrow> window_attrs \<Rightarrow> bool) \<Rightarrow> window list \<Rightarrow> window list \<Rightarrow> bool" where
  "tree_rel R (Window a cs) (Window b ds) = (R a b \<and> trees_rel R cs ds)"
| "trees_rel R [] [] = True"
| "trees_rel R (c # cs) (d # ds) = (tree_rel R c d \<and> trees_rel R cs ds)"
| "trees_rel R [] (d # ds) = False"
| "trees_rel R (c # cs) [] = False"

section \<open>Scenarios\<close>

text \<open>Handlers that do nothing, on a terminal where every curses call succeeds.\<close>

definition quiet_env :: env where
  "quiet_env = \<lparr>hc = (\<lambda>hn m s. s), newwin_ok = (\<lambda>s l c y x. True),
                 wresize_ok = (\<lambda>s wn l c. True), mvwin_ok = (\<lambda>s wn y x. True)\<rparr>"


text \<open>The paint handler \<open>1\<close> invalidates the window at address \<open>2\<close>; the others do nothing.\<close>

definition chain_env :: env where
  "chain_env = quiet_env\<lparr>hc := (\<lambda>hn m s. if hn = 1 \<and> m = WM_PAINT
                                          then window_invalidate s (Some 2) else s)\<rparr>"

text \<open>An 80 x 24 terminal after \<^verbatim>\<open>winmgr_init\<close>.\<close>

definition ex_init :: winmgr where
  "ex_init = the (winmgr_init quiet_env 80 24 True None)"


text \<open>One child on the left half; then the same child hidden.\<close>

definition ex_one :: winmgr where
  "ex_one = snd (window_create quiet_env ex_init None (rect_set 0 0 40 24) 1 1)"

definition ex_one_hidden :: winmgr where
  "ex_one_hidden = window_set_visible ex_one 1 False"

text \<open>Two children side by side, drained, then the left one invalidated again.\<close>

definition ex_two :: winmgr where
  "ex_two = snd (window_create quiet_env ex_one None (rect_set 40 0 80 24) 2 2)"

definition ex_two_drained :: winmgr where
  "ex_two_drained = the (winmgr_update quiet_env ex_two)"


text \<open>One child, drained, then destroyed: the root is a leaf again.\<close>

definition ex_one_drained :: winmgr where
  "ex_one_drained = the (winmgr_update quiet_env ex_one)"

definition ex_one_destroyed :: winmgr where
  "ex_one_destroyed = the (window_destroy quiet_env ex_one_drained 1)"

text \<open>
  The root painted while it is the only window; then a group \<open>1\<close> under it and two windows
  \<open>2\<close> and \<open>3\<close> under the group, the second of them with the handler \<open>1\<close>.
\<close>

definition ex_group :: winmgr where
  "ex_group =
     (let s0 = the (winmgr_update quiet_env ex_init);
          s1 = snd (window_create quiet_env s0 None (rect_set 0 0 40 24) 5 1);
          s2 = snd (window_create quiet_env s1 (Some 1) (rect_set 0 0 20 24) 2 2)
      in snd (window_create quiet_env s2 (Some 1) (rect_set 20 0 40 24) 1 3))"



text \<open>A hidden panel at (10, 5), under which a window is then created.\<close>

definition ex_panel_hidden :: winmgr where
  "ex_panel_hidden =
     window_set_visible (snd (window_create quiet_env ex_init None (rect_set 10 5 50 20) 1 1)) 1 False"

text \<open>
  A group \<open>1\<close> at (0, 0, 10, 10); a panel \<open>2\<close> created under it at the relative rectangle
  (20, 0, 30, 10), which lies outside the group; two windows \<open>3\<close> and \<open>4\<close> under the panel.
\<close>

definition ex_nested :: winmgr where
  "ex_nested =
     (let s1 = snd (window_create quiet_env ex_init None (rect_set 0 0 10 10) 1 1);
          s2 = snd (window_create quiet_env s1 (Some 1) (rect_set 20 0 30 10) 2 2);
          s3 = snd (window_create quiet_env s2 (Some 2) (rect_set 0 0 5 5) 3 3)
      in snd (window_create quiet_env s3 (Some 2) (rect_set 5 0 10 5) 4 4))"

text \<open>A full-screen child, after which the root shrinks to 40 x 12 (as a resize does).\<close>

definition ex_shrunk :: winmgr where
  "ex_shrunk =
     snd (window_set_pos quiet_env
            (snd (window_create quiet_env ex_init None (rect_set 0 0 80 24) 1 1))
            0 (rect_set 0 0 40 12))"

section \<open>Basic facts\<close>

lemma lookup_modify_same:
  "lookup t p = Some n \<Longrightarrow> modify p (\<lambda>_. n) t = t"
  "lookup_list ts p = Some n \<Longrightarrow> modify_list p (\<lambda>_. n) ts = ts"
  by (induction t p and ts p rule: lookup_lookup_list.induct) (auto split: option.splits if_splits)

lemma lookup_parents:
  "(lookup t p = None) = (parents t p = None)"
  "(lookup_list ts p = None) = (parents_list ts p = None)"
  by (induction t p and ts p rule: lookup_lookup_list.induct) (auto split: option.splits if_splits)

lemma rect_offset_forth: "rect_offset (rect_offset r (- dx) (- dy)) dx dy = r"
  by (simp add: rect_offset_def)

lemma rect_equal_iff: "rect_equal a b = (a = b)"
  by (auto simp: rect_equal_def)

lemma rect_intersect_empty: "rect_empty r \<Longrightarrow> \<not> fst (rect_intersect a r)"
  by (auto simp: rect_intersect_def rect_empty_def Let_def)

lemma invalidate_rect_tree_empty:
  "rect_empty r \<Longrightarrow> invalidate_rect_tree t r = (t, 0)"
proof (cases t)
  case (Window a cs)
  assume "rect_empty r"
  then have "\<not> fst (rect_intersect (w_rc a) r)" by (rule rect_intersect_empty)
  with Window show ?thesis by (cases "rect_intersect (w_rc a) r") simp
qed

lemma window_invalidate_rect_empty:
  "rect_empty r \<Longrightarrow> window_invalidate_rect s w r = s"
  by (simp add: window_invalidate_rect_def invalidate_rect_tree_empty lookup_modify_same
      split: option.splits)

lemma clip_to_parents_Some:
  "clip_to_parents r ps = Some r' \<Longrightarrow> list_all w_visible ps \<and> r' = clip_rect r ps"
  by (induction r ps rule: clip_to_parents.induct) (auto split: if_splits prod.splits)

section \<open>A null window names the root\<close>

text \<open>
  Claim C10. For every manager state, \<^verbatim>\<open>window_create\<close> (as parent),
  \<^verbatim>\<open>window_invalidate\<close>, \<^verbatim>\<open>window_find_window\<close>, \<^verbatim>\<open>window_rect\<close> and
  \<^verbatim>\<open>window_set_handler\<close> called with \<^verbatim>\<open>NULL\<close> do exactly what they do when they are
  called with the root window.
\<close>

theorem window_null_names_root:
  "window_create E s None r hn i = window_create E s (Some (root_addr s)) r hn i
   \<and> window_invalidate s None = window_invalidate s (Some (root_addr s))
   \<and> window_find_window s None i = window_find_window s (Some (root_addr s)) i
   \<and> window_rect s None = window_rect s (Some (root_addr s))
   \<and> window_set_handler s None hn = window_set_handler s (Some (root_addr s)) hn"
  by (simp add: window_create_def window_invalidate_def window_find_window_def
      window_rect_def window_set_handler_def)

section \<open>Invalidating a window that does not show\<close>

text \<open>
  Claim C9. For every window \<open>w\<close>, \<^verbatim>\<open>window_invalidate\<close> leaves the whole state as it
  is (every invalid flag, and the aggregate flag) when \<open>w\<close> is invisible, or one of its
  ancestors is invisible, or the rectangle of \<open>w\<close> clipped through its ancestors is empty.
\<close>

theorem window_invalidate_hidden_or_clipped:
  assumes "lookup (wm_root s) w = Some t"
    and "parents (wm_root s) w = Some ps"
    and "\<not> w_visible (attrs t) \<or> \<not> list_all w_visible ps
         \<or> rect_empty (clip_rect (w_rc (attrs t)) ps)"
  shows "window_invalidate s (Some w) = s"
proof (cases "clip_to_parents (w_rc (attrs t)) ps")
  case None
  with assms(1,2) show ?thesis by (simp add: window_invalidate_def)
next
  case (Some rcT)
  then have vis: "list_all w_visible ps" and rcT: "rcT = clip_rect (w_rc (attrs t)) ps"
    by (auto dest: clip_to_parents_Some)
  show ?thesis
  proof (cases "w_visible (attrs t)")
    case False
    with assms(1) show ?thesis by (simp add: window_invalidate_def)
  next
    case True
    with assms(3) vis rcT have "rect_empty rcT" by simp
    with assms(1,2) Some show ?thesis
      by (simp add: window_invalidate_def window_invalidate_rect_empty)
  qed
qed

theorem window_invalidate_hidden_or_clipped_witness:
  "lookup (wm_root ex_one_hidden) 1 =
     Some (Window \<lparr>w_addr = 1, w_win = 1, w_invalid = True, w_visible = False, w_id = 1,
                    w_rc = rect_set 0 0 40 24, w_h = 1\<rparr> [])
   \<and> parents (wm_root ex_one_hidden) 1 = Some [attrs (wm_root ex_one_hidden)]
   \<and> window_invalidate ex_one_hidden (Some 1) = ex_one_hidden"
proof -
  have t: "lookup (wm_root ex_one_hidden) 1 =
     Some (Window \<lparr>w_addr = 1, w_win = 1, w_invalid = True, w_visible = False, w_id = 1,
                    w_rc = rect_set 0 0 40 24, w_h = 1\<rparr> [])"
    by code_simp
  have ps: "parents (wm_root ex_one_hidden) 1 = Some [attrs (wm_root ex_one_hidden)]"
    by code_simp
  from t ps window_invalidate_hidden_or_clipped [OF t ps] show ?thesis by simp
qed

section \<open>Setting the position a window already has\<close>

lemma window_set_pos_equal:
  assumes "lookup (wm_root s) w = Some t"
    and "rect_equal (w_rc (attrs t))
           (case parent_of (wm_root s) w of
              Some p \<Rightarrow> rect_offset r (left (w_rc p)) (top_c (w_rc p)) | None \<Rightarrow> r)"
  shows "window_set_pos E s w r = (True, s)"
  using assms by (simp add: window_set_pos_def Let_def)

text \<open>
  Claim C7. For every window \<open>w\<close>, \<^verbatim>\<open>window_set_pos\<close> with the rectangle that
  \<^verbatim>\<open>window_rect\<close> reports for \<open>w\<close> (its current parent-relative rectangle) returns
  success and leaves the state as it is: no window changes and no curses call is recorded.
\<close>

theorem window_set_pos_same_rect:
  assumes "window_rect s (Some w) = Some r"
  shows "window_set_pos E s w r = (True, s)"
proof -
  from assms obtain t where lk: "lookup (wm_root s) w = Some t"
    by (auto simp: window_rect_def split: option.splits)
  show ?thesis
  proof (cases "parent_of (wm_root s) w")
    case None
    with assms lk have "r = w_rc (attrs t)" by (simp add: window_rect_def)
    with None lk show ?thesis by (intro window_set_pos_equal) (simp_all add: rect_equal_iff)
  next
    case (Some p)
    with assms lk have "r = rect_offset (w_rc (attrs t)) (- left (w_rc p)) (- top_c (w_rc p))"
      by (simp add: window_rect_def)
    with Some lk show ?thesis
      by (intro window_set_pos_equal) (simp_all add: rect_equal_iff rect_offset_forth)
  qed
qed

theorem window_set_pos_same_rect_witness:
  "window_rect ex_two (Some 2) = Some (rect_set 40 0 80 24)
   \<and> window_set_pos quiet_env ex_two 2 (rect_set 40 0 80 24) = (True, ex_two)"
proof -
  have h: "window_rect ex_two (Some 2) = Some (rect_set 40 0 80 24)"
    by code_simp
  show ?thesis using h window_set_pos_same_rect [OF h, of quiet_env] by simp
qed

section \<open>A resize check that finds the size unchanged\<close>

text \<open>
  Claim C8. When the terminal-size query fails, or answers the size that the root's
  rectangle already has, \<^verbatim>\<open>winmgr_resize\<close> returns with the window tree and the
  aggregate flag unchanged, and the only call it may have issued is the read that drains
  the resize pipe: no curses resize or move.
\<close>

theorem winmgr_resize_same_size:
  assumes "sz = None \<or>
           sz = Some (c, r)
           \<and> int c = right (w_rc (attrs (wm_root s))) - left (w_rc (attrs (wm_root s)))
           \<and> int r = bottom (w_rc (attrs (wm_root s))) - top_c (w_rc (attrs (wm_root s)))"
  shows "\<exists>s'. winmgr_resize E s sz = Some s' \<and> wm_root s' = wm_root s
           \<and> wm_invalid s' = wm_invalid s
           \<and> (events s' = events s \<or> events s' = events s @ [Pipe_read])"
  using assms by (auto simp: winmgr_resize_def Let_def)

theorem winmgr_resize_same_size_witness:
  "int 80 = right (w_rc (attrs (wm_root ex_two))) - left (w_rc (attrs (wm_root ex_two)))
   \<and> int 24 = bottom (w_rc (attrs (wm_root ex_two))) - top_c (w_rc (attrs (wm_root ex_two)))
   \<and> (\<exists>s'. winmgr_resize quiet_env ex_two (Some (80, 24)) = Some s'
           \<and> wm_root s' = wm_root ex_two \<and> wm_invalid s' = wm_invalid ex_two
           \<and> (events s' = events ex_two \<or> events s' = events ex_two @ [Pipe_read]))"
proof -
  have h: "int 80 = right (w_rc (attrs (wm_root ex_two))) - left (w_rc (attrs (wm_root ex_two)))
     \<and> int 24 = bottom (w_rc (attrs (wm_root ex_two))) - top_c (w_rc (attrs (wm_root ex_two)))"
    by code_simp
  then have "Some (80::nat, 24::nat) = None \<or> Some (80::nat, 24::nat) = Some (80, 24)
     \<and> int 80 = right (w_rc (attrs (wm_root ex_two))) - left (w_rc (attrs (wm_root ex_two)))
     \<and> int 24 = bottom (w_rc (attrs (wm_root ex_two))) - top_c (w_rc (attrs (wm_root ex_two)))"
    by simp
  from winmgr_resize_same_size [OF this, of quiet_env] h show ?thesis by blast
qed

section \<open>Which windows carry the invalid flag\<close>

lemma modify_absent:
  "lookup t p = None \<Longrightarrow> modify p f t = t"
  "lookup_list ts p = None \<Longrightarrow> modify_list p f ts = ts"
  by (induction t p and ts p rule: lookup_lookup_list.induct) (auto split: option.splits if_splits)

lemma modify_list_Nil: "(modify_list p f cs = []) = (cs = [])"
  by (cases cs) (auto split: option.splits)

lemma parent_attrs_modify:
  "lookup t p = Some n \<Longrightarrow> map g (parent_attrs (f n)) = map g (parent_attrs n)
     \<Longrightarrow> map g (parent_attrs (modify p f t)) = map g (parent_attrs t)"
  "lookup_list ts p = Some n \<Longrightarrow> map g (parent_attrs (f n)) = map g (parent_attrs n)
     \<Longrightarrow> map g (parent_attrs_list (modify_list p f ts)) = map g (parent_attrs_list ts)"
  by (induction t p and ts p rule: lookup_lookup_list.induct)
     (auto simp: modify_list_Nil split: option.splits if_splits)

lemma invalidate_rect_children_Nil:
  "(fst (invalidate_rect_children cs r) = []) = (cs = [])"
  by (cases cs) (auto simp: case_prod_beta)

lemmas window_induct = count_windows_count_windows_list.induct

lemma parent_attrs_invalidate_rect_tree:
  "parent_attrs (fst (invalidate_rect_tree t r)) = parent_attrs t"
  "parent_attrs_list (fst (invalidate_rect_children ts r)) = parent_attrs_list ts"
  by (induction t and ts arbitrary: r and r rule: window_induct)
     (auto simp: case_prod_beta invalidate_rect_children_Nil)

lemma parent_attrs_window_invalidate_rect:
  "map g (parent_attrs (wm_root (window_invalidate_rect s w r))) = map g (parent_attrs (wm_root s))"
proof (cases "lookup (wm_root s) w")
  case None
  then show ?thesis by (simp add: window_invalidate_rect_def)
next
  case (Some t)
  have "map g (parent_attrs (modify w (\<lambda>_. fst (invalidate_rect_tree t r)) (wm_root s)))
        = map g (parent_attrs (wm_root s))"
    using Some by (rule parent_attrs_modify) (simp add: parent_attrs_invalidate_rect_tree)
  with Some show ?thesis by (simp add: window_invalidate_rect_def case_prod_beta)
qed

lemma parent_attrs_window_invalidate:
  "map g (parent_attrs (wm_root (window_invalidate s wo))) = map g (parent_attrs (wm_root s))"
  by (simp add: window_invalidate_def Let_def parent_attrs_window_invalidate_rect
      split: option.splits)

lemma parent_attrs_set_attrs:
  assumes "\<And>a. h (g a) = h a"
  shows "map h (parent_attrs (set_attrs p g t)) = map h (parent_attrs t)"
proof (cases "lookup t p")
  case None
  then show ?thesis by (simp add: set_attrs_def modify_absent)
next
  case (Some n)
  then show ?thesis unfolding set_attrs_def
    by (rule parent_attrs_modify) (cases n, simp add: assms)
qed

lemma parent_attrs_window_set_visible:
  assumes "\<And>a v. h (a\<lparr>w_visible := v\<rparr>) = h a"
  shows "map h (parent_attrs (wm_root (window_set_visible s w vis)))
         = map h (parent_attrs (wm_root s))"
  by (simp add: window_set_visible_def Let_def parent_attrs_window_invalidate_rect
      parent_attrs_window_invalidate parent_attrs_set_attrs assms split: option.splits)

lemma find_invalid_leaf:
  "find_invalid t = Some p \<Longrightarrow> \<exists>a \<in> set (leaf_attrs t). w_addr a = p \<and> w_invalid a"
  "find_invalid_children ts = Some p \<Longrightarrow> \<exists>a \<in> set (leaf_attrs_list ts). w_addr a = p \<and> w_invalid a"
  by (induction t and ts rule: find_invalid_find_invalid_children.induct)
     (auto split: if_splits option.splits)

text \<open>
  Claim C1, as stated: after every operation a window that has children has its invalid
  flag cleared. It fails after \<^verbatim>\<open>winmgr_init\<close> followed by one \<^verbatim>\<open>window_create\<close>:
  the root was marked when it was created as a leaf, \<^verbatim>\<open>new_window\<close> appends the child
  without touching the parent's flag, and the root now has a child and the flag.
\<close>

theorem leaf_only_invalid_counterexample:
  "winmgr_init quiet_env 80 24 True None = Some ex_init
   \<and> window_create quiet_env ex_init None (rect_set 0 0 40 24) 1 1 = (Some 1, ex_one)
   \<and> child (wm_root ex_one) \<noteq> []
   \<and> w_invalid (attrs (wm_root ex_one))"
  by code_simp

section \<open>The aggregate flag\<close>

lemma find_invalid_None_iff:
  "(find_invalid t = None) = (\<not> list_ex w_invalid (visible_leaves t))"
  "(find_invalid_children ts = None) = (\<not> list_ex w_invalid (visible_leaves_list ts))"
  by (induction t and ts rule: window_induct) (auto split: option.splits)

lemma handler_call_keeps_flag:
  assumes "\<And>hn m s. wm_invalid s \<Longrightarrow> wm_invalid (hc E hn m s)"
  shows "wm_invalid s \<Longrightarrow> wm_invalid (handler_call E hn m s)"
  by (simp add: handler_call_def assms)

lemma paint_keeps_flag:
  assumes "\<And>hn m s. wm_invalid s \<Longrightarrow> wm_invalid (hc E hn m s)"
  shows "wm_invalid s \<Longrightarrow> wm_invalid (paint E s w)"
  by (simp add: paint_def Let_def handler_call_keeps_flag [OF assms] split: option.splits)

lemma winmgr_update_result_aux:
  assumes "winmgr_update E s = Some s'"
  shows "(\<forall>hn m s. wm_invalid s \<longrightarrow> wm_invalid (hc E hn m s)) \<longrightarrow>
     (if wm_invalid s then \<not> wm_invalid s' \<and> find_invalid (wm_root s') = None else s' = s)"
proof (rule winmgr_update.raw_induct [OF _ assms])
  fix upd :: "env \<Rightarrow> winmgr \<Rightarrow> winmgr option" and E s s'
  assume IH: "\<And>E s s'. upd E s = Some s' \<Longrightarrow>
     (\<forall>hn m s. wm_invalid s \<longrightarrow> wm_invalid (hc E hn m s)) \<longrightarrow>
     (if wm_invalid s then \<not> wm_invalid s' \<and> find_invalid (wm_root s') = None else s' = s)"
  assume body: "(if wm_invalid s
      then case find_invalid (wm_root s) of
           None \<Rightarrow> upd E (s\<lparr>events := events s @ [Doupdate], wm_invalid := False\<rparr>)
         | Some w \<Rightarrow> upd E (paint E s w)
      else Some s) = Some s'"
  show "(\<forall>hn m s. wm_invalid s \<longrightarrow> wm_invalid (hc E hn m s)) \<longrightarrow>
     (if wm_invalid s then \<not> wm_invalid s' \<and> find_invalid (wm_root s') = None else s' = s)"
  proof
    assume keep: "\<forall>hn m s. wm_invalid s \<longrightarrow> wm_invalid (hc E hn m s)"
    show "if wm_invalid s then \<not> wm_invalid s' \<and> find_invalid (wm_root s') = None else s' = s"
    proof (cases "wm_invalid s")
      case False
      with body show ?thesis by simp
    next
      case True
      show ?thesis
      proof (cases "find_invalid (wm_root s)")
        case None
        with True body
        have "upd E (s\<lparr>events := events s @ [Doupdate], wm_invalid := False\<rparr>) = Some s'"
          by simp
        from IH [OF this] keep
        have "s' = s\<lparr>events := events s @ [Doupdate], wm_invalid := False\<rparr>" by simp
        with None True show ?thesis by simp
      next
        case (Some w)
        with True body have "upd E (paint E s w) = Some s'" by simp
        from IH [OF this] keep
        have "if wm_invalid (paint E s w)
              then \<not> wm_invalid s' \<and> find_invalid (wm_root s') = None else s' = paint E s w"
          by simp
        moreover from keep True have "wm_invalid (paint E s w)"
          by (intro paint_keeps_flag) auto
        ultimately show ?thesis using True by simp
      qed
    qed
  qed
qed

lemma window_invalidate_rect_keeps_flag:
  "wm_invalid s \<Longrightarrow> wm_invalid (window_invalidate_rect s w r)"
  by (simp add: window_invalidate_rect_def case_prod_beta split: option.splits)

lemma window_invalidate_keeps_flag:
  "wm_invalid s \<Longrightarrow> wm_invalid (window_invalidate s wo)"
  by (simp add: window_invalidate_def Let_def window_invalidate_rect_keeps_flag
      split: option.splits)

lemma window_set_visible_keeps_flag:
  "wm_invalid s \<Longrightarrow> wm_invalid (window_set_visible s w vis)"
  by (simp add: window_set_visible_def Let_def window_invalidate_rect_keeps_flag
      window_invalidate_keeps_flag split: option.splits)

lemma window_set_handler_flag:
  "wm_invalid (snd (window_set_handler s wo hn)) = wm_invalid s"
  by (simp add: window_set_handler_def Let_def split: option.splits)

text \<open>
  Claim C3, as stated: in every reachable state the aggregate flag is set if and only if
  some leaf that is visible, with all ancestors visible, is invalid. Neither direction
  holds. After \<^verbatim>\<open>winmgr_init\<close>, one \<^verbatim>\<open>window_create\<close> and
  \<^verbatim>\<open>window_set_visible\<close> hiding the new window, the flag is still set and no visible
  leaf is invalid. After \<^verbatim>\<open>winmgr_init\<close>, one \<^verbatim>\<open>window_create\<close>, a drain and
  \<^verbatim>\<open>window_destroy\<close> of the new window, the flag is clear and the root, marked by
  \<^verbatim>\<open>winmgr_init\<close> and never painted because it had a child during the drain, is a
  visible invalid leaf.
\<close>

theorem aggregate_flag_counterexample:
  "winmgr_init quiet_env 80 24 True None = Some ex_init
   \<and> window_create quiet_env ex_init None (rect_set 0 0 40 24) 1 1 = (Some 1, ex_one)
   \<and> window_set_visible ex_one 1 False = ex_one_hidden
   \<and> wm_invalid ex_one_hidden
   \<and> \<not> invalid_leaf_showing ex_one_hidden
   \<and> winmgr_update quiet_env ex_one = Some ex_one_drained
   \<and> window_destroy quiet_env ex_one_drained 1 = Some ex_one_destroyed
   \<and> \<not> wm_invalid ex_one_destroyed
   \<and> invalid_leaf_showing ex_one_destroyed"
  by code_simp

section \<open>The drain\<close>





lemma drain_terminates_aux:
  assumes step: "\<And>s w. I s \<Longrightarrow> wm_invalid s \<Longrightarrow> find_invalid (wm_root s) = Some w \<Longrightarrow>
            I (paint E s w) \<and> wm_invalid (paint E s w) \<and> m (paint E s w) < (m s :: nat)
            \<and> commits (paint E s w) = commits s"
  shows "I s \<Longrightarrow> wm_invalid s \<Longrightarrow>
         \<exists>s'. winmgr_update E s = Some s' \<and> \<not> wm_invalid s' \<and> commits s' = commits s + 1
              \<and> \<not> invalid_leaf_showing s'"
proof (induction "m s" arbitrary: s rule: less_induct)
  case less
  show ?case
  proof (cases "find_invalid (wm_root s)")
    case None
    let ?s2 = "s\<lparr>events := events s @ [Doupdate], wm_invalid := False\<rparr>"
    have "winmgr_update E ?s2 = Some ?s2"
      by (subst winmgr_update.simps) simp
    with None less.prems have "winmgr_update E s = Some ?s2"
      by (subst winmgr_update.simps) simp
    moreover have "commits ?s2 = commits s + 1" by (simp add: commits_def)
    moreover from None have "\<not> invalid_leaf_showing ?s2"
      by (simp add: invalid_leaf_showing_def find_invalid_None_iff [symmetric])
    ultimately show ?thesis by simp
  next
    case (Some w)
    from step [OF less.prems Some]
    have st: "I (paint E s w)" "wm_invalid (paint E s w)" "m (paint E s w) < m s"
      "commits (paint E s w) = commits s" by simp_all
    from less.hyps [OF st(3) st(1) st(2)] obtain s' where
      "winmgr_update E (paint E s w) = Some s'" "\<not> wm_invalid s'"
      "commits s' = commits (paint E s w) + 1" "\<not> invalid_leaf_showing s'" by blast
    moreover from Some less.prems have "winmgr_update E s = winmgr_update E (paint E s w)"
      by (subst winmgr_update.simps) simp
    ultimately show ?thesis using st(4) by simp
  qed
qed








subsection \<open>Handlers that only paint\<close>

lemma lookup_None_iff:
  "(lookup t w = None) = (w \<notin> w_addr ` set (all_attrs t))"
  "(lookup_list ts w = None) = (w \<notin> w_addr ` set (all_attrs_list ts))"
  by (induction t and ts rule: window_induct) (auto split: option.splits)

lemma find_invalid_lookup:
  "find_invalid t = Some w \<Longrightarrow> distinct (map w_addr (all_attrs t))
     \<Longrightarrow> \<exists>a. lookup t w = Some (Window a []) \<and> w_invalid a"
  "find_invalid_children ts = Some w \<Longrightarrow> distinct (map w_addr (all_attrs_list ts))
     \<Longrightarrow> \<exists>a. lookup_list ts w = Some (Window a []) \<and> w_invalid a"
proof (induction t and ts rule: window_induct)
  case (1 a cs)
  show ?case
  proof (cases "cs = []")
    case True
    with 1(2) show ?thesis by (auto split: if_splits)
  next
    case False
    with 1(2) have f: "find_invalid_children cs = Some w" by (auto split: if_splits)
    from 1(3) have d: "distinct (map w_addr (all_attrs_list cs))"
      and na: "w_addr a \<notin> w_addr ` set (all_attrs_list cs)" by auto
    from 1(1) [OF f d] obtain b where b: "lookup_list cs w = Some (Window b [])" "w_invalid b"
      by blast
    then have "w \<in> w_addr ` set (all_attrs_list cs)"
      using lookup_None_iff(2) [of cs w] by auto
    with na have "w_addr a \<noteq> w" by auto
    with b show ?thesis by simp
  qed
next
  case 2
  then show ?case by simp
next
  case (3 c cs)
  from 3(4) have dc: "distinct (map w_addr (all_attrs c))"
    and dcs: "distinct (map w_addr (all_attrs_list cs))"
    and dis: "w_addr ` set (all_attrs c) \<inter> w_addr ` set (all_attrs_list cs) = {}" by auto
  show ?case
  proof (cases "find_invalid c")
    case (Some w')
    with 3(3) have "find_invalid c = Some w" by simp
    from 3(1) [OF this dc] show ?thesis by auto
  next
    case None
    with 3(3) have f: "find_invalid_children cs = Some w" by simp
    from 3(2) [OF f dcs] obtain b where b: "lookup_list cs w = Some (Window b [])" "w_invalid b"
      by blast
    then have "w \<in> w_addr ` set (all_attrs_list cs)"
      using lookup_None_iff(2) [of cs w] by auto
    with dis have "lookup c w = None" by (auto simp: lookup_None_iff)
    with b show ?thesis by simp
  qed
qed

lemma all_attrs_modify_leaf:
  "lookup t w = Some (Window a []) \<Longrightarrow> w_invalid a \<Longrightarrow>
     map w_addr (all_attrs (modify w (\<lambda>n. Window ((attrs n)\<lparr>w_invalid := False\<rparr>) (child n)) t))
       = map w_addr (all_attrs t)
     \<and> length (filter w_invalid
           (all_attrs (modify w (\<lambda>n. Window ((attrs n)\<lparr>w_invalid := False\<rparr>) (child n)) t)))
         < length (filter w_invalid (all_attrs t))"
  "lookup_list ts w = Some (Window a []) \<Longrightarrow> w_invalid a \<Longrightarrow>
     map w_addr (all_attrs_list
         (modify_list w (\<lambda>n. Window ((attrs n)\<lparr>w_invalid := False\<rparr>) (child n)) ts))
       = map w_addr (all_attrs_list ts)
     \<and> length (filter w_invalid (all_attrs_list
           (modify_list w (\<lambda>n. Window ((attrs n)\<lparr>w_invalid := False\<rparr>) (child n)) ts)))
         < length (filter w_invalid (all_attrs_list ts))"
  by (induction t w and ts w rule: lookup_lookup_list.induct)
     (auto split: option.splits if_splits)

lemma paint_untouched:
  assumes quiet: "\<forall>hn m s. wm_root (hc E hn m s) = wm_root s
                    \<and> wm_invalid (hc E hn m s) = wm_invalid s
                    \<and> commits (hc E hn m s) = commits s"
    and lk: "lookup (wm_root s) w = Some t"
  shows "wm_root (paint E s w) = set_attrs w (\<lambda>a. a\<lparr>w_invalid := False\<rparr>) (wm_root s)
         \<and> wm_invalid (paint E s w) = wm_invalid s \<and> commits (paint E s w) = commits s"
proof -
  let ?s1 = "s\<lparr>wm_root := set_attrs w (\<lambda>a. a\<lparr>w_invalid := False\<rparr>) (wm_root s)\<rparr>"
  let ?s1e = "?s1\<lparr>events := events ?s1 @ [Handler_call (w_h (attrs t)) WM_PAINT]\<rparr>"
  let ?s2 = "hc E (w_h (attrs t)) WM_PAINT ?s1e"
  from quiet have q: "wm_root ?s2 = wm_root ?s1e" "wm_invalid ?s2 = wm_invalid ?s1e"
    "commits ?s2 = commits ?s1e" by blast+
  have c: "commits ?s1e = commits s" by (simp add: commits_def)
  have p: "paint E s w = (case lookup (wm_root ?s2) w of
             None \<Rightarrow> ?s2
           | Some t' \<Rightarrow> ?s2\<lparr>events := events ?s2 @ [Wnoutrefresh (w_win (attrs t'))]\<rparr>)"
    using lk by (simp add: paint_def handler_call_def Let_def)
  show ?thesis
  proof (cases "lookup (wm_root ?s2) w")
    case None
    with p q c show ?thesis by simp
  next
    case (Some t')
    with p have "paint E s w = ?s2\<lparr>events := events ?s2 @ [Wnoutrefresh (w_win (attrs t'))]\<rparr>"
      by simp
    moreover have "commits (?s2\<lparr>events := events ?s2 @ [Wnoutrefresh (w_win (attrs t'))]\<rparr>)
                   = commits ?s2" by (simp add: commits_def)
    ultimately show ?thesis using q c by simp
  qed
qed

text \<open>
  A special case: handlers that leave the window tree, the aggregate flag and the number
  of commits as they are (they paint, and do nothing else to the manager). Then every drain
  that starts with the flag set, in a tree whose windows have distinct addresses,
  terminates with exactly one commit: each painting iteration clears one invalid flag.
\<close>

lemma drain_terminates_when_handlers_leave_state:
  assumes quiet: "\<forall>hn m s. wm_root (hc E hn m s) = wm_root s
                    \<and> wm_invalid (hc E hn m s) = wm_invalid s
                    \<and> commits (hc E hn m s) = commits s"
    and d: "distinct_addrs s" and i: "wm_invalid s"
  shows "\<exists>s'. winmgr_update E s = Some s' \<and> \<not> wm_invalid s' \<and> commits s' = commits s + 1
              \<and> \<not> invalid_leaf_showing s'"
proof (rule drain_terminates_aux [where I = distinct_addrs and m = count_invalid, OF _ d i])
  fix s w
  assume d: "distinct_addrs s" and "wm_invalid s" and f: "find_invalid (wm_root s) = Some w"
  from find_invalid_lookup(1) [OF f] d obtain a where
    a: "lookup (wm_root s) w = Some (Window a [])" "w_invalid a"
    by (auto simp: distinct_addrs_def)
  from paint_untouched [OF quiet a(1)]
  have p: "wm_root (paint E s w) = set_attrs w (\<lambda>a. a\<lparr>w_invalid := False\<rparr>) (wm_root s)"
    "wm_invalid (paint E s w) = wm_invalid s" "commits (paint E s w) = commits s" by simp_all
  from all_attrs_modify_leaf(1) [OF a] d p(1)
  have "distinct_addrs (paint E s w)" "count_invalid (paint E s w) < count_invalid s"
    by (simp_all add: distinct_addrs_def count_invalid_def set_attrs_def)
  with p \<open>wm_invalid s\<close>
  show "distinct_addrs (paint E s w) \<and> wm_invalid (paint E s w)
        \<and> count_invalid (paint E s w) < count_invalid s
        \<and> commits (paint E s w) = commits s" by simp
qed

section \<open>Hiding a window\<close>

lemma rect_intersect_commute: "rect_intersect a b = rect_intersect b a"
  by (simp add: rect_intersect_def Let_def max.commute min.commute)

lemma rect_intersect_fst: "fst (rect_intersect a b) = (\<not> rect_empty (snd (rect_intersect a b)))"
  by (simp add: rect_intersect_def Let_def)

lemma rect_intersect_empty_left: "rect_empty r \<Longrightarrow> rect_empty (snd (rect_intersect r b))"
  by (auto simp: rect_intersect_def rect_empty_def Let_def)

lemma clip_rect_empty: "rect_empty r \<Longrightarrow> rect_empty (clip_rect r ps)"
  by (induction ps arbitrary: r) (simp_all add: rect_intersect_empty_left)

lemma clip_rect_append: "clip_rect r (ps @ qs) = clip_rect (clip_rect r ps) qs"
  by (induction ps arbitrary: r) simp_all

lemma exposed_append: "exposed r (up @ qs) \<Longrightarrow> exposed r up"
  by (auto simp: exposed_def clip_rect_append dest: clip_rect_empty)

lemma mark_exposed_dead:
  "\<not> exposed r up \<Longrightarrow> mark_exposed r up t = t"
proof (induction t arbitrary: up)
  case (Window a cs)
  from Window.prems have d: "\<not> exposed r (up @ [a])" by (auto dest: exposed_append)
  with Window.IH have "map (mark_exposed r (up @ [a])) cs = cs" by (simp add: map_idI)
  with d show ?case by simp
qed

lemma invalidate_rect_tree_mark_exposed:
  "up = [] \<or> exposed r up \<Longrightarrow> fst (invalidate_rect_tree t (clip_rect r up)) = mark_exposed r up t"
  "up = [] \<or> exposed r up \<Longrightarrow>
     fst (invalidate_rect_children ts (clip_rect r up)) = map (mark_exposed r up) ts"
proof (induction t and ts arbitrary: up and up rule: window_induct)
  case (1 a cs)
  from 1(2) have vis: "list_all w_visible up" by (auto simp: exposed_def)
  have clip: "snd (rect_intersect (w_rc a) (clip_rect r up)) = clip_rect r (up @ [a])"
    by (simp add: clip_rect_append rect_intersect_commute)
  have ex: "exposed r (up @ [a])
            = (w_visible a \<and> fst (rect_intersect (w_rc a) (clip_rect r up)))"
    using vis by (simp add: exposed_def rect_intersect_fst clip)
  show ?case
  proof (cases "exposed r (up @ [a])")
    case False
    then have "mark_exposed r (up @ [a]) c = c" for c by (rule mark_exposed_dead)
    then have "map (mark_exposed r (up @ [a])) cs = cs" by (simp add: map_idI)
    with False ex show ?thesis by (cases "rect_intersect (w_rc a) (clip_rect r up)") auto
  next
    case True
    with 1(1) [of "up @ [a]"]
    have "fst (invalidate_rect_children cs (clip_rect r (up @ [a])))
          = map (mark_exposed r (up @ [a])) cs" by simp
    with True ex clip show ?thesis
      by (cases "rect_intersect (w_rc a) (clip_rect r up)") (auto simp: case_prod_beta)
  qed
next
  case 2
  show ?case by simp
next
  case (3 c cs)
  then show ?case by (simp add: case_prod_beta)
qed

lemma modify_cong_lookup:
  "lookup t p = Some n \<Longrightarrow> f n = g n \<Longrightarrow> modify p f t = modify p g t"
  "lookup_list ts p = Some n \<Longrightarrow> f n = g n \<Longrightarrow> modify_list p f ts = modify_list p g ts"
  by (induction t p and ts p rule: lookup_lookup_list.induct) (auto split: option.splits if_splits)

lemma lookup_modify:
  "lookup t p = Some n \<Longrightarrow> w_addr (attrs (f n)) = p \<Longrightarrow> lookup (modify p f t) p = Some (f n)"
  "lookup_list ts p = Some n \<Longrightarrow> w_addr (attrs (f n)) = p
     \<Longrightarrow> lookup_list (modify_list p f ts) p = Some (f n)"
proof (induction t p and ts p rule: lookup_lookup_list.induct)
  case (1 a cs p)
  then show ?case by (cases "f (Window a cs)") (auto split: if_splits)
next
  case (2 p)
  then show ?case by simp
next
  case (3 c cs p)
  then show ?case by (auto split: option.splits)
qed

lemma parents_modify_self:
  "(\<And>n. w_addr (attrs n) = p \<Longrightarrow> w_addr (attrs (f n)) = p)
     \<Longrightarrow> parents (modify p f t) p = parents t p"
  "(\<And>n. w_addr (attrs n) = p \<Longrightarrow> w_addr (attrs (f n)) = p)
     \<Longrightarrow> parents_list (modify_list p f ts) p = parents_list ts p"
proof (induction t p and ts p rule: lookup_lookup_list.induct)
  case (1 a cs p)
  show ?case
  proof (cases "w_addr a = p")
    case True
    with 1(2) [of "Window a cs"] show ?thesis by (cases "f (Window a cs)") simp
  next
    case False
    with 1 show ?thesis by simp
  qed
next
  case (2 p)
  show ?case by simp
next
  case (3 c cs p)
  show ?case
  proof (cases "lookup c p")
    case None
    then have "parents c p = None" by (simp add: lookup_parents)
    with None 3 show ?thesis by simp
  next
    case (Some n)
    then have "parents c p \<noteq> None" by (simp add: lookup_parents [symmetric])
    with Some 3 show ?thesis by auto
  qed
qed

lemma mark_exposed_hidden:
  "\<not> w_visible (attrs t) \<Longrightarrow> mark_exposed r up t = t"
proof (cases t)
  case (Window a cs)
  assume "\<not> w_visible (attrs t)"
  with Window have d: "\<not> exposed r (up @ [a])" by (simp add: exposed_def)
  then have "mark_exposed r (up @ [a]) c = c" for c by (rule mark_exposed_dead)
  then have "map (mark_exposed r (up @ [a])) cs = cs" by (simp add: map_idI)
  with d Window show ?thesis by simp
qed

lemma lookup_mark_exposed_None:
  "lookup t q = None \<Longrightarrow> lookup (mark_exposed r up t) q = None"
  "lookup_list ts q = None \<Longrightarrow> lookup_list (map (mark_exposed r up) ts) q = None"
  by (induction t and ts arbitrary: up and up rule: window_induct)
     (auto split: option.splits if_splits)

lemma lookup_mark_exposed_hidden:
  "lookup t q = Some n \<Longrightarrow> \<not> w_visible (attrs n) \<Longrightarrow> lookup (mark_exposed r up t) q = Some n"
  "lookup_list ts q = Some n \<Longrightarrow> \<not> w_visible (attrs n)
     \<Longrightarrow> lookup_list (map (mark_exposed r up) ts) q = Some n"
proof (induction t and ts arbitrary: up and up rule: window_induct)
  case (1 a cs)
  show ?case
  proof (cases "w_addr a = q")
    case True
    with 1(2) have "n = Window a cs" by simp
    with 1(3) have "mark_exposed r up (Window a cs) = Window a cs"
      by (intro mark_exposed_hidden) simp
    with 1(2) show ?thesis by simp
  next
    case False
    with 1 show ?thesis by simp
  qed
next
  case 2
  then show ?case by simp
next
  case (3 c cs)
  show ?case
  proof (cases "lookup c q")
    case None
    with 3 lookup_mark_exposed_None(1) [OF None, of r up] show ?thesis by simp
  next
    case (Some n')
    with 3 show ?thesis by simp
  qed
qed

text \<open>
  Claim C5, as stated: hiding a visible window \<open>w\<close> with a visible parent \<open>p\<close>
  invalidates exactly the region of \<open>p\<close>'s rectangle clipped by \<open>p\<close>'s own ancestors.
  It fails for a panel \<open>2\<close> that lies outside its parent \<open>1\<close>: the panel's rectangle
  clipped by its ancestors is empty, yet hiding the panel's child \<open>3\<close> marks the sibling
  \<open>4\<close> invalid.
\<close>

theorem hide_invalidates_parent_rect_counterexample:
  "lookup (wm_root ex_nested) 3 =
     Some (Window \<lparr>w_addr = 3, w_win = 3, w_invalid = False, w_visible = True, w_id = 3,
                    w_rc = rect_set 20 0 25 5, w_h = 3\<rparr> [])
   \<and> parents (wm_root ex_nested) 3 =
     Some [\<lparr>w_addr = 2, w_win = 2, w_invalid = False, w_visible = True, w_id = 2,
             w_rc = rect_set 20 0 30 10, w_h = 2\<rparr>,
           \<lparr>w_addr = 1, w_win = 1, w_invalid = True, w_visible = True, w_id = 1,
             w_rc = rect_set 0 0 10 10, w_h = 1\<rparr>,
           \<lparr>w_addr = 0, w_win = 0, w_invalid = True, w_visible = True, w_id = 0,
             w_rc = rect_set 0 0 80 24, w_h = 0\<rparr>]
   \<and> rect_empty (clip_rect (rect_set 20 0 30 10)
         [\<lparr>w_addr = 1, w_win = 1, w_invalid = True, w_visible = True, w_id = 1,
            w_rc = rect_set 0 0 10 10, w_h = 1\<rparr>,
          \<lparr>w_addr = 0, w_win = 0, w_invalid = True, w_visible = True, w_id = 0,
            w_rc = rect_set 0 0 80 24, w_h = 0\<rparr>])
   \<and> map (\<lambda>a. (w_addr a, w_invalid a)) (leaf_attrs (wm_root ex_nested))
       = [(3, False), (4, False)]
   \<and> map (\<lambda>a. (w_addr a, w_invalid a))
         (leaf_attrs (wm_root (window_set_visible ex_nested 3 False)))
       = [(3, False), (4, True)]"
  by code_simp

text \<open>
  Claim C5, amended. Hiding a visible window \<open>w\<close> with parent \<open>p\<close> clears the
  visibility flag of \<open>w\<close> and then invalidates the rectangle of \<open>p\<close> as it is stored,
  not clipped by the ancestors of \<open>p\<close>: in the subtree of \<open>p\<close>, precisely the leaves
  reached from \<open>p\<close> through visible windows whose rectangles have a common part with
  that rectangle are marked, and nothing else changes; the subtree of the hidden \<open>w\<close>
  stays as it is, whatever the rectangle of \<open>w\<close>.
\<close>

theorem hide_invalidates_parent_rect:
  assumes "lookup (wm_root s) w = Some t"
    and "w_visible (attrs t)"
    and "parent_of (wm_root s) w = Some p"
    and "lookup (set_attrs w (\<lambda>a. a\<lparr>w_visible := False\<rparr>) (wm_root s)) (w_addr p) = Some pt"
  shows "wm_root (window_set_visible s w False)
         = modify (w_addr p) (\<lambda>_. mark_exposed (w_rc p) [] pt)
             (set_attrs w (\<lambda>a. a\<lparr>w_visible := False\<rparr>) (wm_root s))
         \<and> (\<forall>wt. lookup pt w = Some wt \<and> \<not> w_visible (attrs wt) \<longrightarrow>
               lookup (mark_exposed (w_rc p) [] pt) w = Some wt)"
proof -
  let ?r1 = "set_attrs w (\<lambda>a. a\<lparr>w_visible := False\<rparr>) (wm_root s)"
  have "parents ?r1 w = parents (wm_root s) w"
    unfolding set_attrs_def by (rule parents_modify_self) simp
  with assms(3) have par: "parent_of ?r1 w = Some p" by (simp add: parent_of_def)
  have "fst (invalidate_rect_tree pt (clip_rect (w_rc p) [])) = mark_exposed (w_rc p) [] pt"
    by (rule invalidate_rect_tree_mark_exposed) simp
  then have m: "fst (invalidate_rect_tree pt (w_rc p)) = mark_exposed (w_rc p) [] pt" by simp
  have "wm_root (window_set_visible s w False)
          = modify (w_addr p) (\<lambda>_. mark_exposed (w_rc p) [] pt) ?r1"
    using assms(1,2,4) par m
    by (simp add: window_set_visible_def Let_def window_invalidate_rect_def case_prod_beta)
  then show ?thesis by (simp add: lookup_mark_exposed_hidden)
qed

theorem hide_invalidates_parent_rect_witness:
  "winmgr_update quiet_env ex_two = Some ex_two_drained
   \<and> map (\<lambda>a. (w_addr a, w_visible a, w_invalid a)) (leaf_attrs (wm_root ex_two_drained))
       = [(1, True, False), (2, True, False)]
   \<and> map (\<lambda>a. (w_addr a, w_visible a, w_invalid a))
         (leaf_attrs (wm_root (window_set_visible ex_two_drained 1 False)))
       = [(1, False, False), (2, True, True)]"
proof -
  let ?s = "ex_two_drained"
  let ?t = "Window \<lparr>w_addr = 1, w_win = 1, w_invalid = False, w_visible = True, w_id = 1,
                    w_rc = rect_set 0 0 40 24, w_h = 1\<rparr> []"
  have 1: "lookup (wm_root ?s) 1 = Some ?t" by code_simp
  have 2: "w_visible (attrs ?t)" by simp
  have 3: "parent_of (wm_root ?s) 1 = Some (attrs (wm_root ?s))" by code_simp
  have 4: "lookup (set_attrs 1 (\<lambda>a. a\<lparr>w_visible := False\<rparr>) (wm_root ?s))
                  (w_addr (attrs (wm_root ?s)))
           = Some (set_attrs 1 (\<lambda>a. a\<lparr>w_visible := False\<rparr>) (wm_root ?s))" by code_simp
  have 5: "map (\<lambda>a. (w_addr a, w_visible a, w_invalid a))
     (leaf_attrs (modify (w_addr (attrs (wm_root ?s)))
        (\<lambda>_. mark_exposed (w_rc (attrs (wm_root ?s))) []
                 (set_attrs 1 (\<lambda>a. a\<lparr>w_visible := False\<rparr>) (wm_root ?s)))
        (set_attrs 1 (\<lambda>a. a\<lparr>w_visible := False\<rparr>) (wm_root ?s))))
     = [(1, False, False), (2, True, True)]" by code_simp
  have 6: "map (\<lambda>a. (w_addr a, w_visible a, w_invalid a)) (leaf_attrs (wm_root ?s))
       = [(1, True, False), (2, True, False)]" by code_simp
  have 7: "winmgr_update quiet_env ex_two = Some ex_two_drained" by code_simp
  from hide_invalidates_parent_rect [OF 1 2 3 4] 5 6 7 show ?thesis by simp
qed

section \<open>Position and relative rectangle\<close>

lemma tree_rel_refl:
  "(\<And>a. R a a) \<Longrightarrow> tree_rel R t t"
  "(\<And>a. R a a) \<Longrightarrow> trees_rel R ts ts"
  by (induction t and ts rule: window_induct) simp_all

lemma tree_rel_invalidate_rect_tree:
  "tree_rel same_geom t (fst (invalidate_rect_tree t r))"
  "trees_rel same_geom ts (fst (invalidate_rect_children ts r))"
  by (induction t and ts arbitrary: r and r rule: window_induct)
     (auto simp: case_prod_beta same_geom_def tree_rel_refl)

lemma tree_rel_modify:
  "lookup t p = Some n \<Longrightarrow> tree_rel R n (f n) \<Longrightarrow> (\<And>a. R a a) \<Longrightarrow> tree_rel R t (modify p f t)"
  "lookup_list ts p = Some n \<Longrightarrow> tree_rel R n (f n) \<Longrightarrow> (\<And>a. R a a)
     \<Longrightarrow> trees_rel R ts (modify_list p f ts)"
  by (induction t p and ts p rule: lookup_lookup_list.induct)
     (auto simp: tree_rel_refl split: option.splits if_splits)

lemma tree_rel_lookup:
  "tree_rel same_geom t t' \<Longrightarrow>
     (case lookup t q of None \<Rightarrow> lookup t' q = None
      | Some n \<Rightarrow> (\<exists>n'. lookup t' q = Some n' \<and> tree_rel same_geom n n'))"
  "trees_rel same_geom ts ts' \<Longrightarrow>
     (case lookup_list ts q of None \<Rightarrow> lookup_list ts' q = None
      | Some n \<Rightarrow> (\<exists>n'. lookup_list ts' q = Some n' \<and> tree_rel same_geom n n'))"
proof (induction same_geom t t' and same_geom ts ts' rule: tree_rel_trees_rel.induct)
  case (1 a cs b ds)
  then show ?case by (auto simp: same_geom_def split: option.splits)
next
  case (3 c cs d ds)
  then show ?case by (auto split: option.splits)
qed simp_all

lemma tree_rel_parents:
  "tree_rel same_geom t t' \<Longrightarrow> rel_option (list_all2 same_geom) (parents t q) (parents t' q)"
  "trees_rel same_geom ts ts' \<Longrightarrow>
     rel_option (list_all2 same_geom) (parents_list ts q) (parents_list ts' q)"
proof (induction same_geom t t' and same_geom ts ts' rule: tree_rel_trees_rel.induct)
  case (1 a cs b ds)
  then show ?case
    by (auto simp: same_geom_def list_all2_appendI option.rel_sel split: option.splits)
next
  case (3 c cs d ds)
  then show ?case by (auto simp: option.rel_sel split: option.splits)
qed simp_all

lemma tree_rel_window_invalidate_rect:
  "tree_rel same_geom (wm_root s) (wm_root (window_invalidate_rect s q r))"
proof (cases "lookup (wm_root s) q")
  case None
  then show ?thesis by (simp add: window_invalidate_rect_def tree_rel_refl same_geom_def)
next
  case (Some t)
  have "tree_rel same_geom (wm_root s) (modify q (\<lambda>_. fst (invalidate_rect_tree t r)) (wm_root s))"
    using Some by (rule tree_rel_modify) (simp_all add: tree_rel_invalidate_rect_tree same_geom_def)
  with Some show ?thesis by (simp add: window_invalidate_rect_def case_prod_beta)
qed

lemma window_rect_tree_rel:
  assumes "tree_rel same_geom (wm_root s) (wm_root s')"
  shows "window_rect s' (Some w) = window_rect s (Some w)"
proof -
  from tree_rel_lookup(1) [OF assms, of w] tree_rel_parents(1) [OF assms, of w]
  show ?thesis
    by (cases "lookup (wm_root s) w"; cases "parents (wm_root s) w";
        cases "parents (wm_root s') w")
       (auto simp: window_rect_def parent_of_def same_geom_def option.rel_sel
          list_all2_Cons1 list_all2_Cons2 elim!: tree_rel.elims split: list.splits)
qed

lemma wresize_root: "wm_root (snd (wresize E wn l c s)) = wm_root s"
  by (simp add: wresize_def)

lemma mvwin_root: "wm_root (snd (mvwin E wn y x s)) = wm_root s"
  by (simp add: mvwin_def)

lemma presize_and_move_root: "wm_root (snd (presize_and_move E wn wrc rcn rrc s)) = wm_root s"
  by (simp add: presize_and_move_def Let_def case_prod_beta wresize_root mvwin_root)

lemma handler_call_root:
  "\<forall>hn m s. wm_root (hc E hn m s) = wm_root s \<Longrightarrow> wm_root (handler_call E hn m s) = wm_root s"
  by (simp add: handler_call_def)

lemma window_set_pos_changed:
  assumes lk: "lookup (wm_root s) w = Some t"
    and rc0: "rc0 = (case parent_of (wm_root s) w of
                       Some p \<Rightarrow> rect_offset r (left (w_rc p)) (top_c (w_rc p)) | None \<Rightarrow> r)"
    and ne: "\<not> rect_equal (w_rc (attrs t)) rc0"
    and rc1: "rc1 = (if w \<noteq> root_addr s
                     then snd (rect_intersect rc0 (w_rc (attrs (wm_root s)))) else rc0)"
    and ok: "window_set_pos E s w r = (True, s')"
    and hc: "\<forall>hn m s. wm_root (hc E hn m s) = wm_root s"
  shows "tree_rel same_geom (set_attrs w (\<lambda>a. a\<lparr>w_rc := rc1\<rparr>) (wm_root s)) (wm_root s')"
proof -
  let ?s1 = "if left rc1 \<noteq> left (w_rc (attrs t)) \<or> top_c rc1 \<noteq> top_c (w_rc (attrs t))
             then snd (presize_and_move E (w_win (attrs t)) (w_rc (attrs t)) rc1
                         (w_rc (attrs (wm_root s))) s)
             else s"
  let ?s2 = "snd (wresize E (w_win (attrs t)) (bottom rc1 - top_c rc1) (right rc1 - left rc1) ?s1)"
  let ?s3 = "?s2\<lparr>wm_root := set_attrs w (\<lambda>a. a\<lparr>w_rc := rc1\<rparr>) (wm_root ?s2)\<rparr>"
  let ?ri = "rect_union (w_rc (attrs t)) rc1"
  let ?q = "case parent_of (wm_root s) w of Some p \<Rightarrow> w_addr p | None \<Rightarrow> w"
  have r2: "wm_root ?s2 = wm_root s"
    by (simp add: wresize_root presize_and_move_root)
  from ok lk ne rc0 rc1
  have "\<exists>hn m. s' = handler_call E hn m (window_invalidate_rect ?s3 ?q ?ri)"
    unfolding window_set_pos_def
    by (simp add: Let_def case_prod_beta split: if_splits option.splits) blast+
  then obtain hn m where "s' = handler_call E hn m (window_invalidate_rect ?s3 ?q ?ri)" by blast
  with hc have "wm_root s' = wm_root (window_invalidate_rect ?s3 ?q ?ri)"
    by (simp add: handler_call_root)
  moreover have "tree_rel same_geom (wm_root ?s3) (wm_root (window_invalidate_rect ?s3 ?q ?ri))"
    by (rule tree_rel_window_invalidate_rect)
  moreover have "wm_root ?s3 = set_attrs w (\<lambda>a. a\<lparr>w_rc := rc1\<rparr>) (wm_root s)"
    using r2 by simp
  ultimately show ?thesis by simp
qed

lemma rect_offset_back: "rect_offset (rect_offset r dx dy) (- dx) (- dy) = r"
  by (simp add: rect_offset_def)

lemma parent_of_root: "parent_of t (w_addr (attrs t)) = None"
  by (cases t) (simp add: parent_of_def)

lemma lookup_addr:
  "lookup t q = Some n \<Longrightarrow> w_addr (attrs n) = q"
  "lookup_list ts q = Some n \<Longrightarrow> w_addr (attrs n) = q"
  by (induction t q and ts q rule: lookup_lookup_list.induct)
     (auto split: option.splits if_splits)

lemma window_rect_set_rc:
  assumes "lookup (wm_root s) w = Some t"
  shows "window_rect (s\<lparr>wm_root := set_attrs w (\<lambda>a. a\<lparr>w_rc := x\<rparr>) (wm_root s)\<rparr>) (Some w)
         = (case parent_of (wm_root s) w of
              None \<Rightarrow> Some x
            | Some p \<Rightarrow> Some (rect_offset x (- left (w_rc p)) (- top_c (w_rc p))))"
proof -
  from assms have a: "w_addr (attrs t) = w" by (rule lookup_addr)
  have l: "lookup (set_attrs w (\<lambda>a. a\<lparr>w_rc := x\<rparr>) (wm_root s)) w
           = Some (Window ((attrs t)\<lparr>w_rc := x\<rparr>) (child t))"
    unfolding set_attrs_def using assms by (rule lookup_modify) (simp add: a)
  have p: "parents (set_attrs w (\<lambda>a. a\<lparr>w_rc := x\<rparr>) (wm_root s)) w = parents (wm_root s) w"
    unfolding set_attrs_def by (rule parents_modify_self) simp
  show ?thesis by (simp add: window_rect_def l parent_of_def p split: option.splits)
qed

text \<open>
  Claim C6, as stated: after a successful \<^verbatim>\<open>window_set_pos\<close> of \<open>w\<close> to \<open>r\<close>,
  \<^verbatim>\<open>window_rect\<close> gives \<open>r\<close> clipped to the root's bounds. It fails for a full-screen
  child after the root has shrunk to 40 x 12: setting the child to its old rectangle
  (0, 0, 80, 24) succeeds without any change, and its relative rectangle is still
  (0, 0, 80, 24), not the clipped (0, 0, 40, 12).
\<close>

theorem window_set_pos_counterexample:
  "fst (window_create quiet_env ex_init None (rect_set 0 0 80 24) 1 1) = Some 1
   \<and> fst (window_set_pos quiet_env
            (snd (window_create quiet_env ex_init None (rect_set 0 0 80 24) 1 1))
            0 (rect_set 0 0 40 12))
   \<and> window_set_pos quiet_env ex_shrunk 1 (rect_set 0 0 80 24) = (True, ex_shrunk)
   \<and> window_rect ex_shrunk (Some 1) = Some (rect_set 0 0 80 24)
   \<and> clipped_to_root ex_shrunk 1 (rect_set 0 0 80 24) = rect_set 0 0 40 12"
  by code_simp

text \<open>
  Claim C6, amended. After a successful \<^verbatim>\<open>window_set_pos\<close> of \<open>w\<close> to \<open>r\<close>, with
  handlers that leave the window tree alone, \<^verbatim>\<open>window_rect\<close> gives \<open>r\<close> itself when
  \<open>r\<close> was already the relative rectangle of \<open>w\<close> (nothing is done, so nothing is
  clipped) or when \<open>w\<close> is the root (which is not clipped), and \<open>r\<close> clipped to the
  root's bounds otherwise.
\<close>

theorem window_rect_after_set_pos:
  assumes lk: "lookup (wm_root s) w = Some t"
    and hc: "\<forall>hn m s. wm_root (hc E hn m s) = wm_root s"
    and ok: "window_set_pos E s w r = (True, s')"
  shows "window_rect s' (Some w)
         = Some (if window_rect s (Some w) = Some r \<or> w = root_addr s then r
                 else clipped_to_root s w r)"
proof -
  define rc0 where "rc0 = (case parent_of (wm_root s) w of
                       Some p \<Rightarrow> rect_offset r (left (w_rc p)) (top_c (w_rc p)) | None \<Rightarrow> r)"
  define rc1 where "rc1 = (if w \<noteq> root_addr s
                     then snd (rect_intersect rc0 (w_rc (attrs (wm_root s)))) else rc0)"
  have eq_iff: "(window_rect s (Some w) = Some r) = rect_equal (w_rc (attrs t)) rc0"
    using lk by (auto simp: window_rect_def rc0_def rect_equal_iff rect_offset_def
        split: option.splits)
  show ?thesis
  proof (cases "rect_equal (w_rc (attrs t)) rc0")
    case True
    with lk have "window_set_pos E s w r = (True, s)"
      unfolding rc0_def by (intro window_set_pos_equal)
    with ok have "s' = s" by simp
    with True eq_iff show ?thesis by simp
  next
    case False
    from window_set_pos_changed [OF lk rc0_def False rc1_def ok hc]
    have "tree_rel same_geom
            (wm_root (s\<lparr>wm_root := set_attrs w (\<lambda>a. a\<lparr>w_rc := rc1\<rparr>) (wm_root s)\<rparr>))
            (wm_root s')" by simp
    then have "window_rect s' (Some w)
          = window_rect (s\<lparr>wm_root := set_attrs w (\<lambda>a. a\<lparr>w_rc := rc1\<rparr>) (wm_root s)\<rparr>) (Some w)"
      by (rule window_rect_tree_rel)
    also have "\<dots> = (case parent_of (wm_root s) w of
              None \<Rightarrow> Some rc1
            | Some p \<Rightarrow> Some (rect_offset rc1 (- left (w_rc p)) (- top_c (w_rc p))))"
      using lk by (rule window_rect_set_rc)
    also have "\<dots> = Some (if w = root_addr s then r else clipped_to_root s w r)"
      by (auto simp: rc1_def rc0_def clipped_to_root_def root_addr_def parent_of_root
          split: option.splits)
    finally show ?thesis using False eq_iff by simp
  qed
qed

theorem window_rect_after_set_pos_witness:
  "lookup (wm_root ex_two) 2 \<noteq> None
   \<and> (\<forall>hn m s. wm_root (hc quiet_env hn m s) = wm_root s)
   \<and> fst (window_set_pos quiet_env ex_two 2 (rect_set 50 10 100 30))
   \<and> window_rect (snd (window_set_pos quiet_env ex_two 2 (rect_set 50 10 100 30))) (Some 2)
       = Some (rect_set 50 10 80 24)
   \<and> clipped_to_root ex_two 2 (rect_set 50 10 100 30) = rect_set 50 10 80 24"
proof -
  let ?t = "Window \<lparr>w_addr = 2, w_win = 2, w_invalid = True, w_visible = True, w_id = 2,
                    w_rc = rect_set 40 0 80 24, w_h = 2\<rparr> []"
  let ?s' = "snd (window_set_pos quiet_env ex_two 2 (rect_set 50 10 100 30))"
  have lk: "lookup (wm_root ex_two) 2 = Some ?t" by code_simp
  have hc: "\<forall>hn m s. wm_root (hc quiet_env hn m s) = wm_root s" by (simp add: quiet_env_def)
  have f: "fst (window_set_pos quiet_env ex_two 2 (rect_set 50 10 100 30))" by code_simp
  then have ok: "window_set_pos quiet_env ex_two 2 (rect_set 50 10 100 30) = (True, ?s')"
    by (cases "window_set_pos quiet_env ex_two 2 (rect_set 50 10 100 30)") simp
  have c: "clipped_to_root ex_two 2 (rect_set 50 10 100 30) = rect_set 50 10 80 24" by code_simp
  have n: "window_rect ex_two (Some 2) \<noteq> Some (rect_set 50 10 100 30)" "2 \<noteq> root_addr ex_two"
    by code_simp+
  from window_rect_after_set_pos [OF lk hc ok] lk hc f c n show ?thesis by simp
qed

section \<open>Creating a window\<close>

lemma lookup_list_append:
  "lookup_list (xs @ ys) w = (case lookup_list xs w of Some t \<Rightarrow> Some t | None \<Rightarrow> lookup_list ys w)"
  by (induction xs) (auto split: option.splits)

lemma parents_list_append:
  "parents_list (xs @ ys) w
   = (case parents_list xs w of Some t \<Rightarrow> Some t | None \<Rightarrow> parents_list ys w)"
  by (induction xs) (auto split: option.splits)

lemma modify_list_append_absent:
  "lookup_list xs w = None \<Longrightarrow> modify_list w g (xs @ ys) = xs @ modify_list w g ys"
  by (induction xs) (auto split: option.splits)

lemma lookup_appended:
  "lookup t p = Some pt \<Longrightarrow> lookup t w = None \<Longrightarrow> w_addr a = w
     \<Longrightarrow> lookup (modify p (\<lambda>n. Window (attrs n) (child n @ [Window a []])) t) w
         = Some (Window a [])"
  "lookup_list ts p = Some pt \<Longrightarrow> lookup_list ts w = None \<Longrightarrow> w_addr a = w
     \<Longrightarrow> lookup_list (modify_list p (\<lambda>n. Window (attrs n) (child n @ [Window a []])) ts) w
         = Some (Window a [])"
proof (induction t p and ts p rule: lookup_lookup_list.induct)
  case (1 b cs p)
  then show ?case by (auto simp: lookup_list_append split: if_splits)
next
  case (2 p)
  then show ?case by simp
next
  case (3 c cs p)
  then show ?case by (auto split: option.splits)
qed

lemma parents_appended:
  "lookup t p = Some pt \<Longrightarrow> parents t p = Some ps \<Longrightarrow> lookup t w = None \<Longrightarrow> w_addr a = w
     \<Longrightarrow> parents (modify p (\<lambda>n. Window (attrs n) (child n @ [Window a []])) t) w
         = Some (attrs pt # ps)"
  "lookup_list ts p = Some pt \<Longrightarrow> parents_list ts p = Some ps \<Longrightarrow> lookup_list ts w = None
     \<Longrightarrow> w_addr a = w
     \<Longrightarrow> parents_list (modify_list p (\<lambda>n. Window (attrs n) (child n @ [Window a []])) ts) w
         = Some (attrs pt # ps)"
proof (induction t p and ts p arbitrary: ps and ps rule: lookup_lookup_list.induct)
  case (1 b cs p)
  show ?case
  proof (cases "w_addr b = p")
    case True
    with 1(2,3,4,5) show ?thesis
      by (auto simp: parents_list_append lookup_parents split: if_splits option.splits)
  next
    case False
    with 1(3) obtain ps' where ps': "parents_list cs p = Some ps'" "ps = ps' @ [b]"
      by (auto split: option.splits)
    from False 1(2,4) have "lookup_list cs p = Some pt" "lookup_list cs w = None"
      and bw: "w_addr b \<noteq> w"
      by (auto split: if_splits)
    from 1(1) [OF False this(1) ps'(1) this(2) 1(5)] False ps'(2) bw show ?thesis by simp
  qed
next
  case (2 p)
  then show ?case by simp
next
  case (3 c cs p)
  show ?case
  proof (cases "lookup c p")
    case None
    then have "parents c p = None" by (simp add: lookup_parents)
    moreover from 3(4,5) have "lookup c w = None" "lookup_list cs w = None"
      by (auto split: option.splits)
    moreover from this have "parents c w = None" by (simp add: lookup_parents)
    ultimately show ?thesis using None 3(2) [OF None] 3(3,4,6) by simp
  next
    case (Some n)
    then obtain as where as: "parents c p = Some as"
      using lookup_parents(1) [of c p] by auto
    from 3(5) have "lookup c w = None" by (auto split: option.splits)
    from 3(1) [OF _ as this 3(6)] Some 3(3,4) as show ?thesis by simp
  qed
qed

lemma modify_appended:
  "lookup t p = Some pt \<Longrightarrow> lookup t w = None \<Longrightarrow> w_addr a = w
     \<Longrightarrow> modify w (\<lambda>_. Window a' []) (modify p (\<lambda>n. Window (attrs n) (child n @ [Window a []])) t)
         = modify p (\<lambda>n. Window (attrs n) (child n @ [Window a' []])) t"
  "lookup_list ts p = Some pt \<Longrightarrow> lookup_list ts w = None \<Longrightarrow> w_addr a = w
     \<Longrightarrow> modify_list w (\<lambda>_. Window a' [])
           (modify_list p (\<lambda>n. Window (attrs n) (child n @ [Window a []])) ts)
         = modify_list p (\<lambda>n. Window (attrs n) (child n @ [Window a' []])) ts"
proof (induction t p and ts p rule: lookup_lookup_list.induct)
  case (1 b cs p)
  then show ?case by (auto simp: modify_list_append_absent split: if_splits)
next
  case (2 p)
  then show ?case by simp
next
  case (3 c cs p)
  show ?case
  proof (cases "lookup c p")
    case None
    with 3 show ?thesis by (auto split: option.splits)
  next
    case (Some n)
    from 3(4) have cw: "lookup c w = None" by (auto split: option.splits)
    from Some 3(3) have "lookup c p = Some pt" by simp
    from lookup_appended(1) [OF this cw 3(5)] 3(1) [OF this cw 3(5)] Some
    show ?thesis by simp
  qed
qed

lemma clip_rect_within:
  "left r \<le> left (clip_rect r qs) \<and> right (clip_rect r qs) \<le> right r
   \<and> top_c r \<le> top_c (clip_rect r qs) \<and> bottom (clip_rect r qs) \<le> bottom r"
proof (induction qs arbitrary: r)
  case Nil
  show ?case by simp
next
  case (Cons q qs)
  from Cons [of "snd (rect_intersect r (w_rc q))"] show ?case
    by (simp add: rect_intersect_def Let_def)
qed

lemma rect_intersect_within:
  "left r \<le> left c \<and> right c \<le> right r \<and> top_c r \<le> top_c c \<and> bottom c \<le> bottom r
     \<Longrightarrow> rect_intersect r c = (\<not> rect_empty c, c)"
proof -
  assume "left r \<le> left c \<and> right c \<le> right r \<and> top_c r \<le> top_c c \<and> bottom c \<le> bottom r"
  then have "\<lparr>left = max (left r) (left c), top_c = max (top_c r) (top_c c),
              right = min (right r) (right c), bottom = min (bottom r) (bottom c)\<rparr> = c"
    by (simp add: max_def min_def)
  then show ?thesis by (simp add: rect_intersect_def Let_def)
qed

lemma clip_to_parents_exposed:
  "qs \<noteq> [] \<Longrightarrow> (clip_to_parents r qs \<noteq> None) = exposed r qs"
proof (induction qs arbitrary: r)
  case Nil
  then show ?case by simp
next
  case (Cons q qs)
  obtain ok r' where i: "rect_intersect r (w_rc q) = (ok, r')"
    by (cases "rect_intersect r (w_rc q)")
  then have ok: "ok = (\<not> rect_empty r')"
    using rect_intersect_fst [of r "w_rc q"] by simp
  show ?case
  proof (cases "qs = []")
    case True
    with i ok show ?thesis by (simp add: exposed_def)
  next
    case False
    from Cons.IH [OF False, of r'] i ok clip_rect_empty [of r' qs] show ?thesis
      by (auto simp: exposed_def)
  qed
qed

lemma window_invalidate_new_leaf:
  assumes lk: "lookup (wm_root s) w = Some (Window a [])"
    and vis: "w_visible a"
    and ps: "parents (wm_root s) w = Some qs" "qs \<noteq> []"
  shows "wm_root (window_invalidate s (Some w))
         = modify w (\<lambda>_. Window (a\<lparr>w_invalid := w_invalid a \<or> exposed (w_rc a) qs\<rparr>) [])
             (wm_root s)"
proof (cases "clip_to_parents (w_rc a) qs")
  case None
  with clip_to_parents_exposed [OF ps(2), of "w_rc a"] have "\<not> exposed (w_rc a) qs" by simp
  with None lk vis ps(1) show ?thesis
    by (simp add: window_invalidate_def lookup_modify_same)
next
  case (Some rc')
  with clip_to_parents_exposed [OF ps(2), of "w_rc a"] have e: "exposed (w_rc a) qs" by simp
  from Some have rc': "rc' = clip_rect (w_rc a) qs" by (simp add: clip_to_parents_Some)
  with e have "\<not> rect_empty rc'" by (simp add: exposed_def)
  with rc' have "rect_intersect (w_rc a) rc' = (True, rc')"
    using rect_intersect_within [OF clip_rect_within, of "w_rc a" qs] by simp
  with vis have "invalidate_rect_tree (Window a []) rc' = (Window (a\<lparr>w_invalid := True\<rparr>) [], 1)"
    by simp
  with Some lk vis ps(1) e show ?thesis
    by (simp add: window_invalidate_def window_invalidate_rect_def)
qed

text \<open>
  Claim C4, as stated: every successful create stores the rectangle offset by the parent's
  origin and clipped to the root, allocates a surface with exactly that rectangle's size
  and position, links the node at the tail, notifies the handler and then has the window
  marked invalid. It fails for a window created at (0, 0, 10, 5) under a hidden panel that
  sits at (10, 5): the create succeeds and stores (10, 5, 20, 10), but the new window is
  not marked invalid, and \<^verbatim>\<open>newwin\<close> was called with 5 lines and 10 columns at
  line 0, column 0 (the rectangle as passed in), not at line 5, column 10.
\<close>

theorem window_create_counterexample:
  "ex_panel_hidden
     = window_set_visible (snd (window_create quiet_env ex_init None (rect_set 10 5 50 20) 1 1)) 1 False
   \<and> fst (window_create quiet_env ex_panel_hidden (Some 1) (rect_set 0 0 10 5) 2 2) = Some 2
   \<and> lookup (wm_root (snd (window_create quiet_env ex_panel_hidden (Some 1) (rect_set 0 0 10 5) 2 2))) 2
       = Some (Window \<lparr>w_addr = 2, w_win = 2, w_invalid = False, w_visible = True, w_id = 2,
                        w_rc = rect_set 10 5 20 10, w_h = 2\<rparr> [])
   \<and> events (snd (window_create quiet_env ex_panel_hidden (Some 1) (rect_set 0 0 10 5) 2 2))
       = events ex_panel_hidden @ [Newwin 5 10 0 0, Handler_call 2 (WM_CREATE 2)]"
  by code_simp

text \<open>
  Claim C4, amended. For every successful create under a parent \<open>p\<close> (the allocator
  handing out an address that no window of the tree has, and the handler leaving the
  window tree as it is when it is notified of the creation), the new
  window's stored rectangle is the requested one offset by the parent's origin and
  intersected with the root's rectangle; the node is linked at the tail of the parent's
  child list; the handler is then called with \<^verbatim>\<open>WM_CREATE\<close>; and then
  \<^verbatim>\<open>window_invalidate\<close> is applied to the new window, which marks it invalid precisely
  when its parent and all further ancestors are visible and its rectangle clipped by them
  is not empty. (Nothing is said about the geometry of the surface.)
\<close>

theorem window_create_links_clipped_window:
  assumes par: "p = (case parent of None \<Rightarrow> root_addr s | Some q \<Rightarrow> q)"
    and lk: "lookup (wm_root s) p = Some pt"
    and ps: "parents (wm_root s) p = Some ps"
    and fresh: "lookup (wm_root s) (next_addr s) = None"
    and hc: "\<forall>s0. wm_root (hc E hn (WM_CREATE (next_addr s)) s0) = wm_root s0"
    and ok: "window_create E s parent r hn i = (Some w, s')"
    and rcT: "rcT = snd (rect_intersect
                (rect_offset r (left (w_rc (attrs pt))) (top_c (w_rc (attrs pt))))
                (w_rc (attrs (wm_root s))))"
  shows "w = next_addr s
     \<and> lookup (wm_root s') p
         = Some (Window (attrs pt)
                  (child pt @ [Window \<lparr>w_addr = w, w_win = next_win s,
                                  w_invalid = exposed rcT (attrs pt # ps), w_visible = True,
                                  w_id = i, w_rc = rcT, w_h = hn\<rparr> []]))
     \<and> (\<exists>s0. last (events s0) = Handler_call hn (WM_CREATE w)
           \<and> lookup (wm_root s0) p
               = Some (Window (attrs pt)
                        (child pt @ [Window \<lparr>w_addr = w, w_win = next_win s,
                                        w_invalid = False, w_visible = True,
                                        w_id = i, w_rc = rcT, w_h = hn\<rparr> []]))
           \<and> s' = window_invalidate (hc E hn (WM_CREATE w) s0) (Some w))"
proof -
  let ?a = "\<lparr>w_addr = next_addr s, w_win = next_win s, w_invalid = False, w_visible = True,
             w_id = i, w_rc = rcT, w_h = hn\<rparr>"
  let ?R0 = "modify p (\<lambda>n. Window (attrs n) (child n @ [Window ?a []])) (wm_root s)"
  let ?s0 = "s\<lparr>next_win := Suc (next_win s), next_addr := Suc (next_addr s),
               wm_root := ?R0,
               events := events s @
                 [Newwin (bottom r - top_c r) (right r - left r) (top_c r) (left r),
                  Handler_call hn (WM_CREATE (next_addr s))]\<rparr>"
  let ?s2 = "hc E hn (WM_CREATE (next_addr s)) ?s0"
  from ok par lk rcT have w: "w = next_addr s" and s': "s' = window_invalidate ?s2 (Some w)"
    by (auto simp: window_create_def new_window_def handler_call_def Let_def
        split: if_splits)
  from lk have pa: "w_addr (attrs pt) = p" by (rule lookup_addr)
  have R2: "wm_root ?s2 = ?R0" using hc by simp
  have l0: "lookup ?R0 p = Some (Window (attrs pt) (child pt @ [Window ?a []]))"
    using lk by (rule lookup_modify) (simp add: pa)
  have lw: "lookup (wm_root ?s2) w = Some (Window ?a [])"
    unfolding R2 w using lk fresh by (rule lookup_appended) simp
  have pw: "parents (wm_root ?s2) w = Some (attrs pt # ps)"
    unfolding R2 w using lk ps fresh by (rule parents_appended) simp
  have "wm_root s'
        = modify w (\<lambda>_. Window (?a\<lparr>w_invalid := w_invalid ?a \<or> exposed (w_rc ?a) (attrs pt # ps)\<rparr>) [])
            (wm_root ?s2)"
    unfolding s' using lw _ pw by (rule window_invalidate_new_leaf) simp_all
  also have "\<dots> = modify p (\<lambda>n. Window (attrs n)
        (child n @ [Window (?a\<lparr>w_invalid := w_invalid ?a \<or> exposed (w_rc ?a) (attrs pt # ps)\<rparr>) []]))
        (wm_root s)"
    unfolding R2 w using lk fresh by (rule modify_appended) simp
  finally have "lookup (wm_root s') p
      = Some (Window (attrs pt)
          (child pt @ [Window (?a\<lparr>w_invalid := w_invalid ?a \<or> exposed (w_rc ?a) (attrs pt # ps)\<rparr>) []]))"
    using lookup_modify(1) [OF lk, of "\<lambda>n. Window (attrs n)
        (child n @ [Window (?a\<lparr>w_invalid := w_invalid ?a \<or> exposed (w_rc ?a) (attrs pt # ps)\<rparr>) []])"]
    by (simp add: pa)
  then have A: "lookup (wm_root s') p
         = Some (Window (attrs pt)
                  (child pt @ [Window \<lparr>w_addr = w, w_win = next_win s,
                                  w_invalid = exposed rcT (attrs pt # ps), w_visible = True,
                                  w_id = i, w_rc = rcT, w_h = hn\<rparr> []]))"
    by (simp add: w)
  have B: "last (events ?s0) = Handler_call hn (WM_CREATE w)" by (simp add: w)
  have C: "lookup (wm_root ?s0) p
               = Some (Window (attrs pt)
                        (child pt @ [Window \<lparr>w_addr = w, w_win = next_win s,
                                        w_invalid = False, w_visible = True,
                                        w_id = i, w_rc = rcT, w_h = hn\<rparr> []]))"
    using l0 by (simp add: w)
  from s' have D: "s' = window_invalidate (hc E hn (WM_CREATE w) ?s0) (Some w)" by (simp add: w)
  from w A B C D show ?thesis by blast
qed

theorem window_create_links_clipped_window_witness:
  "lookup (wm_root ex_one) 1
     = Some (Window \<lparr>w_addr = 1, w_win = 1, w_invalid = True, w_visible = True, w_id = 1,
                      w_rc = rect_set 0 0 40 24, w_h = 1\<rparr> [])
   \<and> lookup (wm_root ex_one) (next_addr ex_one) = None
   \<and> fst (window_create quiet_env ex_one (Some 1) (rect_set 30 20 60 30) 7 9) = Some 2
   \<and> lookup (wm_root (snd (window_create quiet_env ex_one (Some 1) (rect_set 30 20 60 30) 7 9))) 1
     = Some (Window \<lparr>w_addr = 1, w_win = 1, w_invalid = True, w_visible = True, w_id = 1,
                      w_rc = rect_set 0 0 40 24, w_h = 1\<rparr>
               [Window \<lparr>w_addr = 2, w_win = 2, w_invalid = True, w_visible = True, w_id = 9,
                         w_rc = rect_set 30 20 60 24, w_h = 7\<rparr> []])"
proof -
  let ?pt = "Window \<lparr>w_addr = 1, w_win = 1, w_invalid = True, w_visible = True, w_id = 1,
                      w_rc = rect_set 0 0 40 24, w_h = 1\<rparr> []"
  let ?c = "window_create quiet_env ex_one (Some 1) (rect_set 30 20 60 30) 7 9"
  have par: "(1::nat) = (case Some 1 of None \<Rightarrow> root_addr ex_one | Some q \<Rightarrow> q)" by simp
  have lk: "lookup (wm_root ex_one) 1 = Some ?pt" by code_simp
  have ps: "parents (wm_root ex_one) 1 = Some [attrs (wm_root ex_one)]" by code_simp
  have fresh: "lookup (wm_root ex_one) (next_addr ex_one) = None" by code_simp
  have hc: "\<forall>s0. wm_root (hc quiet_env 7 (WM_CREATE (next_addr ex_one)) s0) = wm_root s0"
    by (simp add: quiet_env_def)
  have f: "fst ?c = Some 2" by code_simp
  then have ok: "?c = (Some 2, snd ?c)" by (cases ?c) simp
  have rcT: "rect_set 30 20 60 24 = snd (rect_intersect
                (rect_offset (rect_set 30 20 60 30) (left (w_rc (attrs ?pt))) (top_c (w_rc (attrs ?pt))))
                (w_rc (attrs (wm_root ex_one))))" by code_simp
  have e: "exposed (rect_set 30 20 60 24) (attrs ?pt # [attrs (wm_root ex_one)])" by code_simp
  have n: "next_win ex_one = 2" by code_simp
  from window_create_links_clipped_window [OF par lk ps fresh hc ok rcT] lk fresh f e n
  show ?thesis by simp
qed

section \<open>Moving and destroying a window, step by step\<close>

lemma wresize_flag: "wm_invalid (snd (wresize E wn l c s)) = wm_invalid s"
  by (simp add: wresize_def)

lemma mvwin_flag: "wm_invalid (snd (mvwin E wn y x s)) = wm_invalid s"
  by (simp add: mvwin_def)

lemma presize_and_move_flag:
  "wm_invalid (snd (presize_and_move E wn wrc rcn rrc s)) = wm_invalid s"
  by (simp add: presize_and_move_def Let_def case_prod_beta wresize_flag mvwin_flag)

text \<open>
  The state that \<^verbatim>\<open>window_set_pos\<close> returns: either one that differs from the given one
  in the recorded calls only, or the handler's answer to the position change after the
  rectangle has been stored and the parent (or the root itself) invalidated.
\<close>

lemma window_set_pos_cases:
  "(\<exists>s0. wm_root s0 = wm_root s \<and> wm_invalid s0 = wm_invalid s
         \<and> snd (window_set_pos E s w r) = s0)
   \<or> (\<exists>s0 x q ri hn m. wm_root s0 = wm_root s \<and> wm_invalid s0 = wm_invalid s
         \<and> snd (window_set_pos E s w r)
             = handler_call E hn m
                 (window_invalidate_rect
                    (s0\<lparr>wm_root := set_attrs w (\<lambda>a. a\<lparr>w_rc := x\<rparr>) (wm_root s0)\<rparr>) q ri))"
proof (cases "lookup (wm_root s) w")
  case None
  then have "snd (window_set_pos E s w r) = s" by (simp add: window_set_pos_def)
  then show ?thesis by blast
next
  case (Some t)
  define rc0 where "rc0 = (case parent_of (wm_root s) w of
                       Some p \<Rightarrow> rect_offset r (left (w_rc p)) (top_c (w_rc p)) | None \<Rightarrow> r)"
  define rc1 where "rc1 = (if w \<noteq> root_addr s
                     then snd (rect_intersect rc0 (w_rc (attrs (wm_root s)))) else rc0)"
  let ?s1 = "if left rc1 \<noteq> left (w_rc (attrs t)) \<or> top_c rc1 \<noteq> top_c (w_rc (attrs t))
             then snd (presize_and_move E (w_win (attrs t)) (w_rc (attrs t)) rc1
                         (w_rc (attrs (wm_root s))) s)
             else s"
  let ?s2 = "snd (wresize E (w_win (attrs t)) (bottom rc1 - top_c rc1) (right rc1 - left rc1) ?s1)"
  let ?s3 = "?s2\<lparr>wm_root := set_attrs w (\<lambda>a. a\<lparr>w_rc := rc1\<rparr>) (wm_root ?s2)\<rparr>"
  let ?ri = "rect_union (w_rc (attrs t)) rc1"
  let ?q = "case parent_of (wm_root s) w of Some p \<Rightarrow> w_addr p | None \<Rightarrow> w"
  have s1: "wm_root ?s1 = wm_root s" "wm_invalid ?s1 = wm_invalid s"
    by (simp_all add: presize_and_move_root presize_and_move_flag)
  have s2: "wm_root ?s2 = wm_root s" "wm_invalid ?s2 = wm_invalid s"
    by (simp_all add: wresize_root wresize_flag presize_and_move_root presize_and_move_flag)
  show ?thesis
  proof (cases "rect_equal (w_rc (attrs t)) rc0")
    case True
    with Some have "window_set_pos E s w r = (True, s)"
      unfolding rc0_def by (intro window_set_pos_equal)
    then have "snd (window_set_pos E s w r) = s" by simp
    then show ?thesis by blast
  next
    case False
    obtain ok s' where res: "window_set_pos E s w r = (ok, s')"
      by (cases "window_set_pos E s w r") blast
    from res Some False rc0_def rc1_def
    have "s' = ?s1 \<or> s' = ?s2
          \<or> (\<exists>hn m. s' = handler_call E hn m (window_invalidate_rect ?s3 ?q ?ri))"
      unfolding window_set_pos_def
      by (simp add: Let_def case_prod_beta split: if_splits option.splits) blast+
    then consider "s' = ?s1" | "s' = ?s2"
      | hn m where "s' = handler_call E hn m (window_invalidate_rect ?s3 ?q ?ri)" by blast
    then show ?thesis
    proof cases
      case 1
      with s1 res show ?thesis by simp
    next
      case 2
      with s2 res show ?thesis by simp
    next
      case 3
      have "snd (window_set_pos E s w r)
             = handler_call E hn m (window_invalidate_rect
                  (?s2\<lparr>wm_root := set_attrs w (\<lambda>a. a\<lparr>w_rc := rc1\<rparr>) (wm_root ?s2)\<rparr>) ?q ?ri)"
        using 3 res by simp
      with s2 show ?thesis by blast
    qed
  qed
qed


text \<open>
  The state that \<^verbatim>\<open>window_destroy\<close> returns for a window without children: the given
  one, or the handler's answer to \<^verbatim>\<open>WM_DESTROY\<close> with the window unlinked from its
  parent (the deletion of the surface is recorded only).
\<close>

lemma destroy_finish_cases:
  "(\<exists>s0. wm_root s0 = wm_root s \<and> wm_invalid s0 = wm_invalid s \<and> destroy_finish E s w = s0)
   \<or> (\<exists>hn s1 s2. s1 = handler_call E hn WM_DESTROY s \<and> wm_invalid s2 = wm_invalid s1
         \<and> (wm_root s2 = wm_root s1
              \<or> (\<exists>p. wm_root s2 = modify p (\<lambda>n. Window (attrs n) (remove_child w (child n)))
                                      (wm_root s1)))
         \<and> destroy_finish E s w = s2)"
proof (cases "lookup (wm_root s) w")
  case None
  then have "destroy_finish E s w = s" by (simp add: destroy_finish_def)
  then show ?thesis by blast
next
  case (Some t)
  define s1 where "s1 = handler_call E (w_h (attrs t)) WM_DESTROY s"
  show ?thesis
  proof (cases "lookup (wm_root s1) w")
    case None
    with Some have "destroy_finish E s w = s1"
      unfolding s1_def destroy_finish_def by (simp add: Let_def)
    with s1_def show ?thesis by blast
  next
    case t1: (Some t1)
    define s2 where "s2 = (case parent_of (wm_root s1) w of
                            None \<Rightarrow> s1
                          | Some p \<Rightarrow>
                              s1\<lparr>wm_root :=
                                   modify (w_addr p)
                                     (\<lambda>n. Window (attrs n) (remove_child w (child n)))
                                     (wm_root s1)\<rparr>)"
    define s3 where "s3 = (if w_win (attrs t1) \<noteq> 0
                   then s2\<lparr>events := events s2 @ [Delwin (w_win (attrs t1))]\<rparr>
                   else s2)"
    have e: "destroy_finish E s w = s3"
      using Some t1 unfolding s3_def s2_def s1_def destroy_finish_def by (simp add: Let_def)
    have "wm_invalid s2 = wm_invalid s1"
      by (cases "parent_of (wm_root s1) w") (simp_all add: s2_def)
    then have i: "wm_invalid s3 = wm_invalid s1" by (simp add: s3_def)
    have "wm_root s2 = wm_root s1
          \<or> (\<exists>p. wm_root s2 = modify p (\<lambda>n. Window (attrs n) (remove_child w (child n)))
                                      (wm_root s1))"
      by (cases "parent_of (wm_root s1) w") (auto simp: s2_def)
    moreover have "wm_root s3 = wm_root s2" by (simp add: s3_def)
    ultimately have "wm_root s3 = wm_root s1
          \<or> (\<exists>p. wm_root s3 = modify p (\<lambda>n. Window (attrs n) (remove_child w (child n)))
                                      (wm_root s1))" by simp
    with e i s1_def show ?thesis by blast
  qed
qed


section \<open>The flags of the windows that have children\<close>

lemma parent_flags_root: "wm_root s' = wm_root s \<Longrightarrow> parent_flags s' = parent_flags s"
  by (simp add: parent_flags_def)

lemma parent_flags_window_invalidate_rect:
  "parent_flags (window_invalidate_rect s w r) = parent_flags s"
  by (simp add: parent_flags_def parent_attrs_window_invalidate_rect)

lemma parent_flags_window_invalidate:
  "parent_flags (window_invalidate s wo) = parent_flags s"
  by (simp add: parent_flags_def parent_attrs_window_invalidate)

lemma parent_flags_window_set_visible:
  "parent_flags (window_set_visible s w vis) = parent_flags s"
  by (simp add: parent_flags_def parent_attrs_window_set_visible)

lemma parent_flags_handler_call:
  assumes "\<forall>hn m s. parent_flags (hc E hn m s) = parent_flags s"
  shows "parent_flags (handler_call E hn m s) = parent_flags s"
proof -
  have "parent_flags (handler_call E hn m s)
        = parent_flags (s\<lparr>events := events s @ [Handler_call hn m]\<rparr>)"
    using assms by (simp add: handler_call_def)
  then show ?thesis by (simp add: parent_flags_def)
qed

lemma parent_flags_window_set_pos:
  assumes "\<forall>hn m s. parent_flags (hc E hn m s) = parent_flags s"
  shows "parent_flags (snd (window_set_pos E s w r)) = parent_flags s"
proof -
  from window_set_pos_cases [of s E w r]
  consider s0 where "wm_root s0 = wm_root s" "snd (window_set_pos E s w r) = s0"
    | s0 x q ri hn m where "wm_root s0 = wm_root s"
        "snd (window_set_pos E s w r)
           = handler_call E hn m
               (window_invalidate_rect
                  (s0\<lparr>wm_root := set_attrs w (\<lambda>a. a\<lparr>w_rc := x\<rparr>) (wm_root s0)\<rparr>) q ri)"
    by blast
  then show ?thesis
  proof cases
    case 1
    then show ?thesis by (simp add: parent_flags_def)
  next
    case 2
    have "parent_flags (s0\<lparr>wm_root := set_attrs w (\<lambda>a. a\<lparr>w_rc := x\<rparr>) (wm_root s0)\<rparr>)
          = parent_flags s0"
      by (simp add: parent_flags_def parent_attrs_set_attrs)
    moreover have "parent_flags s0 = parent_flags s"
      using 2(1) by (rule parent_flags_root)
    ultimately show ?thesis using 2(2)
      by (simp add: parent_flags_handler_call [OF assms] parent_flags_window_invalidate_rect)
  qed
qed

lemma parent_attrs_list_append:
  "parent_attrs_list (xs @ ys) = parent_attrs_list xs @ parent_attrs_list ys"
  by (induction xs) simp_all

lemma parent_attrs_modify_insert:
  "lookup t p = Some n \<Longrightarrow>
     set (map g (parent_attrs (f n))) = insert x (set (map g (parent_attrs n)))
     \<Longrightarrow> set (map g (parent_attrs (modify p f t))) = insert x (set (map g (parent_attrs t)))"
  "lookup_list ts p = Some n \<Longrightarrow>
     set (map g (parent_attrs (f n))) = insert x (set (map g (parent_attrs n)))
     \<Longrightarrow> set (map g (parent_attrs_list (modify_list p f ts)))
         = insert x (set (map g (parent_attrs_list ts)))"
  by (induction t p and ts p rule: lookup_lookup_list.induct)
     (auto simp: modify_list_Nil split: option.splits if_splits)

lemma parent_attrs_link_leaf:
  assumes "lookup t p = Some n"
  shows "set (map g (parent_attrs (link_leaf p a t)))
         = insert (g (attrs n)) (set (map g (parent_attrs t)))"
  unfolding link_leaf_def using assms
  by (rule parent_attrs_modify_insert(1))
     (cases n, auto simp: parent_attrs_list_append)

lemma window_create_parent_flags:
  assumes pf: "\<forall>hn m s. parent_flags (hc E hn m s) = parent_flags s"
    and ok: "window_create E s po r hn i = (Some w', s')"
    and lk: "lookup (wm_root s) (case po of None \<Rightarrow> root_addr s | Some p \<Rightarrow> p) = Some pt"
  shows "set (parent_flags s')
         = insert (w_addr (attrs pt), w_invalid (attrs pt)) (set (parent_flags s))"
proof -
  let ?p = "case po of None \<Rightarrow> root_addr s | Some p \<Rightarrow> p"
  from ok lk obtain s1 a where
    s': "s' = window_invalidate (handler_call E hn (WM_CREATE w') s1) (Some w')"
    and r: "wm_root s1 = link_leaf ?p a (wm_root s)"
    by (auto simp: window_create_def new_window_def Let_def link_leaf_def split: if_splits)
  from s' have "parent_flags s' = parent_flags s1"
    by (simp add: parent_flags_window_invalidate parent_flags_handler_call [OF pf])
  also have "\<dots> = map (\<lambda>a. (w_addr a, w_invalid a)) (parent_attrs (link_leaf ?p a (wm_root s)))"
    using r by (simp add: parent_flags_def)
  finally have "set (parent_flags s')
    = set (map (\<lambda>a. (w_addr a, w_invalid a)) (parent_attrs (link_leaf ?p a (wm_root s))))"
    by simp
  also have "\<dots> = insert (w_addr (attrs pt), w_invalid (attrs pt))
                       (set (map (\<lambda>a. (w_addr a, w_invalid a)) (parent_attrs (wm_root s))))"
    using lk by (rule parent_attrs_link_leaf)
  finally show ?thesis by (simp only: parent_flags_def)
qed

lemma window_create_failed_root:
  "fst (window_create E s po r hn i) = None \<Longrightarrow> wm_root (snd (window_create E s po r hn i)) = wm_root s"
  by (auto simp: window_create_def Let_def case_prod_beta split: option.splits if_splits)

lemma paint_parent_flags:
  assumes pf: "\<forall>hn m s. parent_flags (hc E hn m s) = parent_flags s"
    and da: "\<forall>hn m s. distinct_addrs s \<longrightarrow> distinct_addrs (hc E hn m s)"
    and d: "distinct_addrs s"
    and f: "find_invalid (wm_root s) = Some w"
  shows "parent_flags (paint E s w) = parent_flags s \<and> distinct_addrs (paint E s w)"
proof -
  from find_invalid_lookup(1) [OF f] d obtain a where
    a: "lookup (wm_root s) w = Some (Window a [])" "w_invalid a"
    by (auto simp: distinct_addrs_def)
  let ?s1 = "s\<lparr>wm_root := set_attrs w (\<lambda>a. a\<lparr>w_invalid := False\<rparr>) (wm_root s)\<rparr>"
  let ?s2 = "handler_call E (w_h a) WM_PAINT ?s1"
  have "map (\<lambda>a. (w_addr a, w_invalid a))
          (parent_attrs (modify w (\<lambda>n. Window ((attrs n)\<lparr>w_invalid := False\<rparr>) (child n)) (wm_root s)))
        = map (\<lambda>a. (w_addr a, w_invalid a)) (parent_attrs (wm_root s))"
    using a(1) by (rule parent_attrs_modify(1)) simp
  then have p1: "parent_flags ?s1 = parent_flags s"
    by (simp add: parent_flags_def set_attrs_def)
  from all_attrs_modify_leaf(1) [OF a] d have d1: "distinct_addrs ?s1"
    by (simp add: distinct_addrs_def set_attrs_def)
  have p2: "parent_flags ?s2 = parent_flags s"
    using p1 by (simp add: parent_flags_handler_call [OF pf])
  have "distinct_addrs (?s1\<lparr>events := events ?s1 @ [Handler_call (w_h a) WM_PAINT]\<rparr>)"
    using d1 by (simp add: distinct_addrs_def)
  with da have d2: "distinct_addrs ?s2" unfolding handler_call_def by blast
  have "paint E s w = (case lookup (wm_root ?s2) w of
             None \<Rightarrow> ?s2
           | Some t' \<Rightarrow> ?s2\<lparr>events := events ?s2 @ [Wnoutrefresh (w_win (attrs t'))]\<rparr>)"
    using a(1) by (simp add: paint_def Let_def)
  then have "wm_root (paint E s w) = wm_root ?s2"
    by (cases "lookup (wm_root ?s2) w") simp_all
  then have "parent_flags (paint E s w) = parent_flags ?s2"
    and "distinct_addrs (paint E s w) = distinct_addrs ?s2"
    by (simp_all only: parent_flags_def distinct_addrs_def)
  with p2 d2 show ?thesis by simp
qed

lemma winmgr_update_parent_flags_aux:
  assumes "winmgr_update E s = Some s'"
  shows "(\<forall>hn m s. parent_flags (hc E hn m s) = parent_flags s) \<longrightarrow>
         (\<forall>hn m s. distinct_addrs s \<longrightarrow> distinct_addrs (hc E hn m s)) \<longrightarrow>
         distinct_addrs s \<longrightarrow> parent_flags s' = parent_flags s \<and> distinct_addrs s'"
proof (rule winmgr_update.raw_induct [OF _ assms])
  fix upd :: "env \<Rightarrow> winmgr \<Rightarrow> winmgr option" and E s s'
  assume IH: "\<And>E s s'. upd E s = Some s' \<Longrightarrow>
         (\<forall>hn m s. parent_flags (hc E hn m s) = parent_flags s) \<longrightarrow>
         (\<forall>hn m s. distinct_addrs s \<longrightarrow> distinct_addrs (hc E hn m s)) \<longrightarrow>
         distinct_addrs s \<longrightarrow> parent_flags s' = parent_flags s \<and> distinct_addrs s'"
  assume body: "(if wm_invalid s
      then case find_invalid (wm_root s) of
           None \<Rightarrow> upd E (s\<lparr>events := events s @ [Doupdate], wm_invalid := False\<rparr>)
         | Some w \<Rightarrow> upd E (paint E s w)
      else Some s) = Some s'"
  show "(\<forall>hn m s. parent_flags (hc E hn m s) = parent_flags s) \<longrightarrow>
         (\<forall>hn m s. distinct_addrs s \<longrightarrow> distinct_addrs (hc E hn m s)) \<longrightarrow>
         distinct_addrs s \<longrightarrow> parent_flags s' = parent_flags s \<and> distinct_addrs s'"
  proof (intro impI)
    assume pf: "\<forall>hn m s. parent_flags (hc E hn m s) = parent_flags s"
      and da: "\<forall>hn m s. distinct_addrs s \<longrightarrow> distinct_addrs (hc E hn m s)"
      and d: "distinct_addrs s"
    show "parent_flags s' = parent_flags s \<and> distinct_addrs s'"
    proof (cases "wm_invalid s")
      case False
      with body d show ?thesis by simp
    next
      case True
      show ?thesis
      proof (cases "find_invalid (wm_root s)")
        case None
        let ?s2 = "s\<lparr>events := events s @ [Doupdate], wm_invalid := False\<rparr>"
        from None True body have "upd E ?s2 = Some s'" by simp
        from IH [OF this] pf da have "distinct_addrs ?s2 \<longrightarrow>
            parent_flags s' = parent_flags ?s2 \<and> distinct_addrs s'" by blast
        with d show ?thesis by (simp add: parent_flags_def distinct_addrs_def)
      next
        case (Some w)
        with True body have "upd E (paint E s w) = Some s'" by simp
        from IH [OF this] pf da have "distinct_addrs (paint E s w) \<longrightarrow>
            parent_flags s' = parent_flags (paint E s w) \<and> distinct_addrs s'" by blast
        with paint_parent_flags [OF pf da d Some] show ?thesis by simp
      qed
    qed
  qed
qed

lemma winmgr_update_parent_flags:
  assumes "\<forall>hn m s. parent_flags (hc E hn m s) = parent_flags s"
    and "\<forall>hn m s. distinct_addrs s \<longrightarrow> distinct_addrs (hc E hn m s)"
    and "distinct_addrs s" and "winmgr_update E s = Some s'"
  shows "parent_flags s' = parent_flags s"
  using winmgr_update_parent_flags_aux [OF assms(4)] assms(1-3) by blast

lemma subseq_parent_attrs_remove_child:
  "subseq (map g (parent_attrs_list (remove_child w cs))) (map g (parent_attrs_list cs))"
  by (induction cs) (auto intro: list_emb_append_mono list_emb_append2)

lemma subseq_parent_attrs_unlink:
  "subseq (map g (parent_attrs (Window (attrs n) (remove_child w (child n)))))
          (map g (parent_attrs n))"
proof (cases n)
  case (Window a cs)
  show ?thesis
  proof (cases "cs = []")
    case True
    with Window show ?thesis by simp
  next
    case False
    with Window show ?thesis
      using subseq_parent_attrs_remove_child [of g w cs] by auto
  qed
qed

lemma subseq_parent_attrs_modify:
  "lookup t p = Some n \<Longrightarrow> subseq (map g (parent_attrs (f n))) (map g (parent_attrs n))
     \<Longrightarrow> subseq (map g (parent_attrs (modify p f t))) (map g (parent_attrs t))"
  "lookup_list ts p = Some n \<Longrightarrow> subseq (map g (parent_attrs (f n))) (map g (parent_attrs n))
     \<Longrightarrow> subseq (map g (parent_attrs_list (modify_list p f ts))) (map g (parent_attrs_list ts))"
  by (induction t p and ts p rule: lookup_lookup_list.induct)
     (auto simp: modify_list_Nil intro: list_emb_append_mono split: option.splits if_splits)

lemma subseq_parent_flags_unlink:
  assumes "wm_root s2 = modify p (\<lambda>n. Window (attrs n) (remove_child w (child n))) (wm_root s1)"
  shows "subseq (parent_flags s2) (parent_flags s1)"
proof (cases "lookup (wm_root s1) p")
  case None
  with assms show ?thesis by (simp add: parent_flags_def modify_absent)
next
  case (Some n)
  then have "subseq (map (\<lambda>a. (w_addr a, w_invalid a))
                 (parent_attrs (modify p (\<lambda>n. Window (attrs n) (remove_child w (child n))) (wm_root s1))))
               (map (\<lambda>a. (w_addr a, w_invalid a)) (parent_attrs (wm_root s1)))"
    by (rule subseq_parent_attrs_modify(1)) (rule subseq_parent_attrs_unlink)
  with assms show ?thesis by (simp add: parent_flags_def)
qed

lemma destroy_finish_parent_flags:
  assumes pf: "\<forall>hn m s. parent_flags (hc E hn m s) = parent_flags s"
  shows "subseq (parent_flags (destroy_finish E s w)) (parent_flags s)"
proof -
  from destroy_finish_cases [of s E w]
  consider s0 where "wm_root s0 = wm_root s" "destroy_finish E s w = s0"
    | hn s1 s2 where "s1 = handler_call E hn WM_DESTROY s"
        "wm_root s2 = wm_root s1
         \<or> (\<exists>p. wm_root s2 = modify p (\<lambda>n. Window (attrs n) (remove_child w (child n)))
                                 (wm_root s1))"
        "destroy_finish E s w = s2"
    by blast
  then show ?thesis
  proof cases
    case 1
    then show ?thesis by (simp add: parent_flags_def)
  next
    case 2
    from 2(1) have p1: "parent_flags s1 = parent_flags s"
      by (simp add: parent_flags_handler_call [OF pf])
    from 2(2) have "subseq (parent_flags s2) (parent_flags s1)"
    proof
      assume "wm_root s2 = wm_root s1"
      then show ?thesis by (simp add: parent_flags_def)
    next
      assume "\<exists>p. wm_root s2 = modify p (\<lambda>n. Window (attrs n) (remove_child w (child n)))
                                 (wm_root s1)"
      then show ?thesis by (auto intro: subseq_parent_flags_unlink)
    qed
    with p1 2(3) show ?thesis by simp
  qed
qed

lemma window_destroy_parent_flags_aux:
  assumes "window_destroy E s w = Some s'"
  shows "(\<forall>hn m s. parent_flags (hc E hn m s) = parent_flags s) \<longrightarrow>
         subseq (parent_flags s') (parent_flags s)"
proof (rule window_destroy.raw_induct [OF _ assms])
  fix wd :: "env \<Rightarrow> winmgr \<Rightarrow> nat \<Rightarrow> winmgr option" and E s w s'
  assume IH: "\<And>E s w s'. wd E s w = Some s' \<Longrightarrow>
         (\<forall>hn m s. parent_flags (hc E hn m s) = parent_flags s) \<longrightarrow>
         subseq (parent_flags s') (parent_flags s)"
  assume body: "(case lookup (wm_root s) w of
        None \<Rightarrow> Some s
      | Some t \<Rightarrow>
          (case child t of
             [] \<Rightarrow> Some (destroy_finish E s w)
           | c # cs \<Rightarrow>
               Option.bind (wd E s (w_addr (attrs c))) (\<lambda>s'. wd E s' w))) = Some s'"
  show "(\<forall>hn m s. parent_flags (hc E hn m s) = parent_flags s) \<longrightarrow>
         subseq (parent_flags s') (parent_flags s)"
  proof
    assume pf: "\<forall>hn m s. parent_flags (hc E hn m s) = parent_flags s"
    show "subseq (parent_flags s') (parent_flags s)"
    proof (cases "lookup (wm_root s) w")
      case None
      with body show ?thesis by simp
    next
      case (Some t)
      show ?thesis
      proof (cases "child t")
        case Nil
        with Some body have "s' = destroy_finish E s w" by simp
        then show ?thesis by (simp add: destroy_finish_parent_flags [OF pf])
      next
        case (Cons c cs)
        with Some body obtain s1 where 1: "wd E s (w_addr (attrs c)) = Some s1"
          and 2: "wd E s1 w = Some s'"
          by (auto simp: bind_eq_Some_conv)
        from IH [OF 1] pf have "subseq (parent_flags s1) (parent_flags s)" by blast
        moreover from IH [OF 2] pf have "subseq (parent_flags s') (parent_flags s1)" by blast
        ultimately show ?thesis by (rule subseq_order.trans [rotated])
      qed
    qed
  qed
qed

lemma all_attrs_invalidate_rect_tree:
  "map w_addr (all_attrs (fst (invalidate_rect_tree t r))) = map w_addr (all_attrs t)"
  "map w_addr (all_attrs_list (fst (invalidate_rect_children ts r))) = map w_addr (all_attrs_list ts)"
  by (induction t and ts arbitrary: r and r rule: window_induct)
     (auto simp: case_prod_beta)

lemma all_attrs_modify:
  "lookup t p = Some n \<Longrightarrow> map g (all_attrs (f n)) = map g (all_attrs n)
     \<Longrightarrow> map g (all_attrs (modify p f t)) = map g (all_attrs t)"
  "lookup_list ts p = Some n \<Longrightarrow> map g (all_attrs (f n)) = map g (all_attrs n)
     \<Longrightarrow> map g (all_attrs_list (modify_list p f ts)) = map g (all_attrs_list ts)"
  by (induction t p and ts p rule: lookup_lookup_list.induct)
     (auto split: option.splits if_splits)

lemma distinct_addrs_window_invalidate_rect:
  "distinct_addrs (window_invalidate_rect s w r) = distinct_addrs s"
proof (cases "lookup (wm_root s) w")
  case None
  then show ?thesis by (simp add: window_invalidate_rect_def)
next
  case (Some t)
  have "map w_addr (all_attrs (modify w (\<lambda>_. fst (invalidate_rect_tree t r)) (wm_root s)))
        = map w_addr (all_attrs (wm_root s))"
    using Some by (rule all_attrs_modify(1)) (simp add: all_attrs_invalidate_rect_tree)
  with Some show ?thesis
    by (simp add: window_invalidate_rect_def distinct_addrs_def case_prod_beta)
qed

lemma distinct_addrs_window_invalidate:
  "distinct_addrs (window_invalidate s wo) = distinct_addrs s"
  by (simp add: window_invalidate_def Let_def distinct_addrs_window_invalidate_rect
      split: option.splits)

text \<open>
  Claim C1, amended. No operation changes the invalid flag of a window that has children,
  as long as the handlers do not: let the handlers leave alone which windows have children
  and the flags of these, and let them keep the addresses of the windows distinct (they may
  invalidate, hide, show and move windows).
  Then \<^verbatim>\<open>window_invalidate_rect\<close>, \<^verbatim>\<open>window_invalidate\<close>, \<^verbatim>\<open>window_set_visible\<close>
  and \<^verbatim>\<open>window_set_pos\<close> leave the windows that have children, and the flag of each, as
  they are, and so does a drain that returns, when the addresses are distinct at its start.
  After a successful \<^verbatim>\<open>window_create\<close> the windows with children are those there were,
  with their flags, and the parent of the new window, with the flag it had (a flag it got
  as a leaf stays on it); a failed one changes none.
  After a \<^verbatim>\<open>window_destroy\<close> that returns, the windows with children and their flags
  are a subsequence of what they were.
  The window that \<^verbatim>\<open>find_invalid\<close> returns is a leaf that carries the flag.
\<close>

theorem windows_with_children_keep_flag:
  assumes pf: "\<forall>hn m s. parent_flags (hc E hn m s) = parent_flags s"
    and da: "\<forall>hn m s. distinct_addrs s \<longrightarrow> distinct_addrs (hc E hn m s)"
  shows "parent_flags (window_invalidate_rect s w r) = parent_flags s
   \<and> parent_flags (window_invalidate s wo) = parent_flags s
   \<and> parent_flags (window_set_visible s w vis) = parent_flags s
   \<and> parent_flags (snd (window_set_pos E s w r)) = parent_flags s
   \<and> (window_create E s wo r hn i = (Some w', s1)
        \<and> lookup (wm_root s) (case wo of None \<Rightarrow> root_addr s | Some p \<Rightarrow> p) = Some pt
      \<longrightarrow> set (parent_flags s1)
            = insert (w_addr (attrs pt), w_invalid (attrs pt)) (set (parent_flags s)))
   \<and> (fst (window_create E s wo r hn i) = None
      \<longrightarrow> parent_flags (snd (window_create E s wo r hn i)) = parent_flags s)
   \<and> (distinct_addrs s \<and> winmgr_update E s = Some s2 \<longrightarrow> parent_flags s2 = parent_flags s)
   \<and> (window_destroy E s w = Some s3 \<longrightarrow> subseq (parent_flags s3) (parent_flags s))
   \<and> (find_invalid (wm_root s) = Some p
      \<longrightarrow> (\<exists>a \<in> set (leaf_attrs (wm_root s)). w_addr a = p \<and> w_invalid a))"
proof -
  have c1: "parent_flags (window_invalidate_rect s w r) = parent_flags s"
    by (rule parent_flags_window_invalidate_rect)
  have c2: "parent_flags (window_invalidate s wo) = parent_flags s"
    by (rule parent_flags_window_invalidate)
  have c3: "parent_flags (window_set_visible s w vis) = parent_flags s"
    by (rule parent_flags_window_set_visible)
  have c4: "parent_flags (snd (window_set_pos E s w r)) = parent_flags s"
    using pf by (rule parent_flags_window_set_pos)
  have c5: "window_create E s wo r hn i = (Some w', s1)
        \<and> lookup (wm_root s) (case wo of None \<Rightarrow> root_addr s | Some p \<Rightarrow> p) = Some pt
      \<longrightarrow> set (parent_flags s1)
            = insert (w_addr (attrs pt), w_invalid (attrs pt)) (set (parent_flags s))"
    using window_create_parent_flags [OF pf] by blast
  have c6: "fst (window_create E s wo r hn i) = None
      \<longrightarrow> parent_flags (snd (window_create E s wo r hn i)) = parent_flags s"
    by (simp add: parent_flags_def window_create_failed_root)
  have c7: "distinct_addrs s \<and> winmgr_update E s = Some s2 \<longrightarrow> parent_flags s2 = parent_flags s"
    using winmgr_update_parent_flags [OF pf da] by blast
  have c8: "window_destroy E s w = Some s3 \<longrightarrow> subseq (parent_flags s3) (parent_flags s)"
    using window_destroy_parent_flags_aux [of E s w s3] pf by blast
  have c9: "find_invalid (wm_root s) = Some p
      \<longrightarrow> (\<exists>a \<in> set (leaf_attrs (wm_root s)). w_addr a = p \<and> w_invalid a)"
    using find_invalid_leaf(1) [of "wm_root s" p] by blast
  show ?thesis by (intro conjI c1 c2 c3 c4 c5 c6 c7 c8 c9)
qed

theorem windows_with_children_keep_flag_witness:
  "parent_flags ex_group = [(0, False), (1, True)]
   \<and> parent_flags (window_invalidate ex_group None) = [(0, False), (1, True)]
   \<and> parent_flags (window_set_visible ex_group 1 False) = [(0, False), (1, True)]
   \<and> parent_flags (snd (window_set_pos chain_env ex_group 1 (rect_set 0 0 30 24)))
       = [(0, False), (1, True)]
   \<and> (\<exists>s'. window_create chain_env ex_group (Some 2) (rect_set 0 0 30 24) 4 4 = (Some 4, s')
          \<and> set (parent_flags s') = {(0, False), (1, True), (2, True)})
   \<and> (\<exists>s'. winmgr_update chain_env ex_group = Some s'
          \<and> parent_flags s' = [(0, False), (1, True)])
   \<and> (\<exists>s'. window_destroy chain_env ex_group 1 = Some s'
          \<and> subseq (parent_flags s') [(0, False), (1, True)])
   \<and> (\<exists>a \<in> set (leaf_attrs (wm_root ex_group)). w_addr a = 2 \<and> w_invalid a)"
proof -
  let ?c = "window_create chain_env ex_group (Some 2) (rect_set 0 0 30 24) 4 4"
  let ?u = "the (winmgr_update chain_env ex_group)"
  let ?d = "the (window_destroy chain_env ex_group 1)"
  let ?pt = "the (lookup (wm_root ex_group) 2)"
  have pf: "\<forall>hn m s. parent_flags (hc chain_env hn m s) = parent_flags s"
    by (simp add: chain_env_def quiet_env_def parent_flags_window_invalidate)
  have da: "\<forall>hn m s. distinct_addrs s \<longrightarrow> distinct_addrs (hc chain_env hn m s)"
    by (simp add: chain_env_def quiet_env_def distinct_addrs_window_invalidate)
  note T = windows_with_children_keep_flag [OF pf da]
  have v: "parent_flags ex_group = [(0, False), (1, True)]" by code_simp
  have d: "distinct_addrs ex_group" by code_simp
  have c: "?c = (Some 4, snd ?c)" by code_simp
  have lk: "lookup (wm_root ex_group) (case Some 2 of None \<Rightarrow> root_addr ex_group | Some p \<Rightarrow> p)
            = Some ?pt" by code_simp
  have pt: "w_addr (attrs ?pt) = 2" "w_invalid (attrs ?pt)" by code_simp+
  have u: "winmgr_update chain_env ex_group = Some ?u" by code_simp
  have dd: "window_destroy chain_env ex_group 1 = Some ?d" by code_simp
  have f: "find_invalid (wm_root ex_group) = Some 2" by code_simp
  from T [where s = ex_group and wo = None]
  have 2: "parent_flags (window_invalidate ex_group None) = parent_flags ex_group" by blast
  from T [where s = ex_group and w = 1 and r = "rect_set 0 0 30 24" and wo = "Some 2"
            and vis = False and hn = 4 and i = 4 and w' = 4 and ?s1.0 = "snd ?c" and pt = ?pt
            and ?s2.0 = ?u and ?s3.0 = ?d and p = 2]
  have 3: "parent_flags (window_set_visible ex_group 1 False) = parent_flags ex_group"
    and 4: "parent_flags (snd (window_set_pos chain_env ex_group 1 (rect_set 0 0 30 24)))
            = parent_flags ex_group"
    and 5: "?c = (Some 4, snd ?c) \<and> lookup (wm_root ex_group)
               (case Some 2 of None \<Rightarrow> root_addr ex_group | Some p \<Rightarrow> p) = Some ?pt
            \<longrightarrow> set (parent_flags (snd ?c))
                  = insert (w_addr (attrs ?pt), w_invalid (attrs ?pt)) (set (parent_flags ex_group))"
    and 7: "distinct_addrs ex_group \<and> winmgr_update chain_env ex_group = Some ?u
            \<longrightarrow> parent_flags ?u = parent_flags ex_group"
    and 8: "window_destroy chain_env ex_group 1 = Some ?d
            \<longrightarrow> subseq (parent_flags ?d) (parent_flags ex_group)"
    and 9: "find_invalid (wm_root ex_group) = Some 2
      \<longrightarrow> (\<exists>a \<in> set (leaf_attrs (wm_root ex_group)). w_addr a = 2 \<and> w_invalid a)"
    by blast+
  from 5 c lk pt v have e5: "set (parent_flags (snd ?c)) = {(0, False), (1, True), (2, True)}"
    by auto
  from 7 d u v have e7: "parent_flags ?u = [(0, False), (1, True)]" by simp
  from 8 dd v have e8: "subseq (parent_flags ?d) [(0, False), (1, True)]" by simp
  from 9 f have e9: "\<exists>a \<in> set (leaf_attrs (wm_root ex_group)). w_addr a = 2 \<and> w_invalid a"
    by simp
  from c e5 have C: "\<exists>s'. ?c = (Some 4, s') \<and> set (parent_flags s') = {(0, False), (1, True), (2, True)}"
    by blast
  from u e7 have U: "\<exists>s'. winmgr_update chain_env ex_group = Some s'
          \<and> parent_flags s' = [(0, False), (1, True)]" by blast
  from dd e8 have D: "\<exists>s'. window_destroy chain_env ex_group 1 = Some s'
          \<and> subseq (parent_flags s') [(0, False), (1, True)]" by blast
  from v 2 3 4 C U D e9 show ?thesis by simp
qed

section \<open>What sets and what clears the aggregate flag\<close>

lemma exposed_leaves_dead:
  "\<not> exposed r up \<Longrightarrow> exposed_leaves r up t = []"
proof (induction t arbitrary: up)
  case (Window a cs)
  from Window.prems have d: "\<not> exposed r (up @ [a])" by (auto dest: exposed_append)
  with Window.IH have "\<forall>c \<in> set cs. exposed_leaves r (up @ [a]) c = []" by simp
  with d show ?case by simp
qed

lemma invalidate_rect_tree_count:
  "up = [] \<or> exposed r up \<Longrightarrow>
     snd (invalidate_rect_tree t (clip_rect r up)) = length (exposed_leaves r up t)"
  "up = [] \<or> exposed r up \<Longrightarrow>
     snd (invalidate_rect_children ts (clip_rect r up))
       = length (concat (map (exposed_leaves r up) ts))"
proof (induction t and ts arbitrary: up and up rule: window_induct)
  case (1 a cs)
  from 1(2) have vis: "list_all w_visible up" by (auto simp: exposed_def)
  have clip: "snd (rect_intersect (w_rc a) (clip_rect r up)) = clip_rect r (up @ [a])"
    by (simp add: clip_rect_append rect_intersect_commute)
  have ex: "exposed r (up @ [a])
            = (w_visible a \<and> fst (rect_intersect (w_rc a) (clip_rect r up)))"
    using vis by (simp add: exposed_def rect_intersect_fst clip)
  show ?case
  proof (cases "exposed r (up @ [a])")
    case False
    then have "exposed_leaves r (up @ [a]) c = []" for c by (rule exposed_leaves_dead)
    then have "concat (map (exposed_leaves r (up @ [a])) cs) = []" by simp
    with False ex show ?thesis by (cases "rect_intersect (w_rc a) (clip_rect r up)") auto
  next
    case True
    with 1(1) [of "up @ [a]"]
    have "snd (invalidate_rect_children cs (clip_rect r (up @ [a])))
          = length (concat (map (exposed_leaves r (up @ [a])) cs))" by simp
    with True ex clip show ?thesis
      by (cases "rect_intersect (w_rc a) (clip_rect r up)") (auto simp: case_prod_beta)
  qed
next
  case 2
  show ?case by simp
next
  case (3 c cs)
  then show ?case by (simp add: case_prod_beta)
qed

lemma window_invalidate_rect_sets_flag:
  "wm_invalid (window_invalidate_rect s w r)
   = (wm_invalid s \<or> (case lookup (wm_root s) w of
                         None \<Rightarrow> False
                       | Some t \<Rightarrow> exposed_leaves r [] t \<noteq> []))"
proof (cases "lookup (wm_root s) w")
  case None
  then show ?thesis by (simp add: window_invalidate_rect_def)
next
  case (Some t)
  from invalidate_rect_tree_count(1) [of "[]" r t]
  have "snd (invalidate_rect_tree t r) = length (exposed_leaves r [] t)" by simp
  with Some show ?thesis by (simp add: window_invalidate_rect_def case_prod_beta)
qed

lemma window_set_pos_keeps_flag:
  assumes keep: "\<forall>hn m s. wm_invalid s \<longrightarrow> wm_invalid (hc E hn m s)"
    and i: "wm_invalid s"
  shows "wm_invalid (snd (window_set_pos E s w r))"
proof -
  from window_set_pos_cases [of s E w r]
  consider s0 where "wm_invalid s0 = wm_invalid s" "snd (window_set_pos E s w r) = s0"
    | s0 x q ri hn m where "wm_invalid s0 = wm_invalid s"
        "snd (window_set_pos E s w r)
           = handler_call E hn m
               (window_invalidate_rect
                  (s0\<lparr>wm_root := set_attrs w (\<lambda>a. a\<lparr>w_rc := x\<rparr>) (wm_root s0)\<rparr>) q ri)"
    by blast
  then show ?thesis
  proof cases
    case 1
    with i show ?thesis by simp
  next
    case 2
    from 2(1) i
    have "wm_invalid (window_invalidate_rect
                  (s0\<lparr>wm_root := set_attrs w (\<lambda>a. a\<lparr>w_rc := x\<rparr>) (wm_root s0)\<rparr>) q ri)"
      by (intro window_invalidate_rect_keeps_flag) simp
    with 2(2) keep show ?thesis by (simp add: handler_call_keeps_flag)
  qed
qed

lemma window_create_keeps_flag:
  assumes keep: "\<forall>hn m s. wm_invalid s \<longrightarrow> wm_invalid (hc E hn m s)"
    and i: "wm_invalid s"
  shows "wm_invalid (snd (window_create E s po r hn i'))"
proof (cases "lookup (wm_root s) (case po of None \<Rightarrow> root_addr s | Some p \<Rightarrow> p)")
  case None
  with i show ?thesis by (simp add: window_create_def Let_def)
next
  case (Some pt)
  show ?thesis
  proof (cases "newwin_ok E s (bottom r - top_c r) (right r - left r) (top_c r) (left r)")
    case False
    with Some i show ?thesis by (simp add: window_create_def Let_def)
  next
    case True
    with Some obtain s1 w' where
      s': "snd (window_create E s po r hn i')
           = window_invalidate (handler_call E hn (WM_CREATE w') s1) (Some w')"
      and f: "wm_invalid s1 = wm_invalid s"
      by (auto simp: window_create_def new_window_def Let_def)
    from f i keep have "wm_invalid (handler_call E hn (WM_CREATE w') s1)"
      by (simp add: handler_call_keeps_flag)
    with s' show ?thesis by (simp add: window_invalidate_keeps_flag)
  qed
qed

lemma destroy_finish_keeps_flag:
  assumes keep: "\<forall>hn m s. wm_invalid s \<longrightarrow> wm_invalid (hc E hn m s)"
    and i: "wm_invalid s"
  shows "wm_invalid (destroy_finish E s w)"
proof -
  from destroy_finish_cases [of s E w]
  consider s0 where "wm_invalid s0 = wm_invalid s" "destroy_finish E s w = s0"
    | hn s1 s2 where "s1 = handler_call E hn WM_DESTROY s" "wm_invalid s2 = wm_invalid s1"
        "destroy_finish E s w = s2"
    by blast
  then show ?thesis
  proof cases
    case 1
    with i show ?thesis by simp
  next
    case 2
    from 2(1) i keep have "wm_invalid s1" by (simp add: handler_call_keeps_flag)
    with 2 show ?thesis by simp
  qed
qed

lemma window_destroy_keeps_flag_aux:
  assumes "window_destroy E s w = Some s'"
  shows "(\<forall>hn m s. wm_invalid s \<longrightarrow> wm_invalid (hc E hn m s)) \<longrightarrow> wm_invalid s \<longrightarrow> wm_invalid s'"
proof (rule window_destroy.raw_induct [OF _ assms])
  fix wd :: "env \<Rightarrow> winmgr \<Rightarrow> nat \<Rightarrow> winmgr option" and E s w s'
  assume IH: "\<And>E s w s'. wd E s w = Some s' \<Longrightarrow>
         (\<forall>hn m s. wm_invalid s \<longrightarrow> wm_invalid (hc E hn m s)) \<longrightarrow> wm_invalid s \<longrightarrow> wm_invalid s'"
  assume body: "(case lookup (wm_root s) w of
        None \<Rightarrow> Some s
      | Some t \<Rightarrow>
          (case child t of
             [] \<Rightarrow> Some (destroy_finish E s w)
           | c # cs \<Rightarrow>
               Option.bind (wd E s (w_addr (attrs c))) (\<lambda>s'. wd E s' w))) = Some s'"
  show "(\<forall>hn m s. wm_invalid s \<longrightarrow> wm_invalid (hc E hn m s)) \<longrightarrow> wm_invalid s \<longrightarrow> wm_invalid s'"
  proof (intro impI)
    assume keep: "\<forall>hn m s. wm_invalid s \<longrightarrow> wm_invalid (hc E hn m s)" and i: "wm_invalid s"
    show "wm_invalid s'"
    proof (cases "lookup (wm_root s) w")
      case None
      with body i show ?thesis by simp
    next
      case (Some t)
      show ?thesis
      proof (cases "child t")
        case Nil
        with Some body have "s' = destroy_finish E s w" by simp
        then show ?thesis by (simp add: destroy_finish_keeps_flag [OF keep i])
      next
        case (Cons c cs)
        with Some body obtain s1 where 1: "wd E s (w_addr (attrs c)) = Some s1"
          and 2: "wd E s1 w = Some s'"
          by (auto simp: bind_eq_Some_conv)
        from IH [OF 1] keep i have "wm_invalid s1" by blast
        with IH [OF 2] keep show ?thesis by blast
      qed
    qed
  qed
qed

lemma winmgr_update_clear: "\<not> wm_invalid s \<Longrightarrow> winmgr_update E s = Some s"
  by (subst winmgr_update.simps) simp

text \<open>
  Claim C3, amended. The aggregate flag follows the marking, not the leaves.
  \<^verbatim>\<open>window_invalidate_rect\<close> sets it exactly when it reaches a leaf: after the call the
  flag is set if and only if it was set before or the subtree of the window has a leaf
  whose chain from the window exposes the rectangle.
  No other operation clears a set flag, as long as the handlers do not: not
  \<^verbatim>\<open>window_invalidate\<close>, \<^verbatim>\<open>window_set_visible\<close>, \<^verbatim>\<open>window_set_handler\<close>,
  \<^verbatim>\<open>window_set_pos\<close>, \<^verbatim>\<open>window_create\<close>, nor a \<^verbatim>\<open>window_destroy\<close> that returns.
  The drain clears it: a drain that starts with the flag set and returns ends with the flag
  clear and with no invalid leaf that is visible with all ancestors visible; a drain that
  starts with the flag clear returns at once and changes nothing.
  Between drains the flag may be set while no such leaf exists, and clear while one does.
\<close>

theorem aggregate_flag_set_by_marking_cleared_by_drain:
  assumes keep: "\<forall>hn m s. wm_invalid s \<longrightarrow> wm_invalid (hc E hn m s)"
  shows "wm_invalid (window_invalidate_rect s w r)
           = (wm_invalid s \<or> (case lookup (wm_root s) w of
                                 None \<Rightarrow> False
                               | Some t \<Rightarrow> exposed_leaves r [] t \<noteq> []))
   \<and> (wm_invalid s \<longrightarrow>
         wm_invalid (window_invalidate s wo)
         \<and> wm_invalid (window_set_visible s w vis)
         \<and> wm_invalid (snd (window_set_handler s wo hn))
         \<and> wm_invalid (snd (window_set_pos E s w r))
         \<and> wm_invalid (snd (window_create E s wo r hn i)))
   \<and> (wm_invalid s \<and> window_destroy E s w = Some s1 \<longrightarrow> wm_invalid s1)
   \<and> (wm_invalid s \<and> winmgr_update E s = Some s2
        \<longrightarrow> \<not> wm_invalid s2 \<and> \<not> invalid_leaf_showing s2)
   \<and> (\<not> wm_invalid s \<longrightarrow> winmgr_update E s = Some s)"
proof -
  have c1: "wm_invalid (window_invalidate_rect s w r)
           = (wm_invalid s \<or> (case lookup (wm_root s) w of
                                 None \<Rightarrow> False
                               | Some t \<Rightarrow> exposed_leaves r [] t \<noteq> []))"
    by (rule window_invalidate_rect_sets_flag)
  have c2: "wm_invalid s \<longrightarrow>
         wm_invalid (window_invalidate s wo)
         \<and> wm_invalid (window_set_visible s w vis)
         \<and> wm_invalid (snd (window_set_handler s wo hn))
         \<and> wm_invalid (snd (window_set_pos E s w r))
         \<and> wm_invalid (snd (window_create E s wo r hn i))"
    by (simp add: window_invalidate_keeps_flag window_set_visible_keeps_flag
        window_set_handler_flag window_set_pos_keeps_flag [OF keep]
        window_create_keeps_flag [OF keep])
  have c3: "wm_invalid s \<and> window_destroy E s w = Some s1 \<longrightarrow> wm_invalid s1"
    using window_destroy_keeps_flag_aux [of E s w s1] keep by blast
  have c4: "wm_invalid s \<and> winmgr_update E s = Some s2
        \<longrightarrow> \<not> wm_invalid s2 \<and> \<not> invalid_leaf_showing s2"
  proof
    assume a: "wm_invalid s \<and> winmgr_update E s = Some s2"
    with winmgr_update_result_aux [of E s s2] keep
    have "\<not> wm_invalid s2 \<and> find_invalid (wm_root s2) = None" by simp
    then show "\<not> wm_invalid s2 \<and> \<not> invalid_leaf_showing s2"
      by (simp add: find_invalid_None_iff invalid_leaf_showing_def)
  qed
  have c5: "\<not> wm_invalid s \<longrightarrow> winmgr_update E s = Some s"
    by (simp add: winmgr_update_clear)
  show ?thesis by (intro conjI c1 c2 c3 c4 c5)
qed

theorem aggregate_flag_set_by_marking_cleared_by_drain_witness:
  "\<not> wm_invalid ex_two_drained
   \<and> wm_invalid (window_invalidate_rect ex_two_drained 1 (rect_set 0 0 1 1))
   \<and> \<not> wm_invalid (window_invalidate_rect ex_two_drained 1 (rect_set 50 0 60 5))
   \<and> winmgr_update quiet_env ex_two_drained = Some ex_two_drained
   \<and> wm_invalid ex_one
   \<and> wm_invalid (window_set_visible ex_one 1 False)
   \<and> (\<exists>s'. window_destroy quiet_env ex_one 1 = Some s' \<and> wm_invalid s')
   \<and> (\<exists>s'. winmgr_update quiet_env ex_one = Some s'
         \<and> \<not> wm_invalid s' \<and> \<not> invalid_leaf_showing s')"
proof -
  let ?u = "the (winmgr_update quiet_env ex_one)"
  let ?d = "the (window_destroy quiet_env ex_one 1)"
  have k: "\<forall>hn m s. wm_invalid s \<longrightarrow> wm_invalid (hc quiet_env hn m s)"
    by (simp add: quiet_env_def)
  note T = aggregate_flag_set_by_marking_cleared_by_drain [OF k]
  have a0: "\<not> wm_invalid ex_two_drained" by code_simp
  have a1: "case lookup (wm_root ex_two_drained) 1 of
              None \<Rightarrow> False | Some t \<Rightarrow> exposed_leaves (rect_set 0 0 1 1) [] t \<noteq> []"
    by code_simp
  have a2: "\<not> (case lookup (wm_root ex_two_drained) 1 of
              None \<Rightarrow> False | Some t \<Rightarrow> exposed_leaves (rect_set 50 0 60 5) [] t \<noteq> [])"
    by code_simp
  have b: "wm_invalid ex_one" by code_simp
  have u: "winmgr_update quiet_env ex_one = Some ?u" by code_simp
  have d: "window_destroy quiet_env ex_one 1 = Some ?d" by code_simp
  from T [where s = ex_two_drained and w = 1 and r = "rect_set 0 0 1 1"] a0 a1
  have 1: "wm_invalid (window_invalidate_rect ex_two_drained 1 (rect_set 0 0 1 1))"
    and 4: "winmgr_update quiet_env ex_two_drained = Some ex_two_drained" by blast+
  from T [where s = ex_two_drained and w = 1 and r = "rect_set 50 0 60 5"] a0 a2
  have 2: "\<not> wm_invalid (window_invalidate_rect ex_two_drained 1 (rect_set 50 0 60 5))"
    by blast
  from T [where s = ex_one and w = 1 and vis = False and ?s1.0 = ?d and ?s2.0 = ?u] b u d
  have 3: "wm_invalid (window_set_visible ex_one 1 False)"
    and 5: "wm_invalid ?d"
    and 6: "\<not> wm_invalid ?u \<and> \<not> invalid_leaf_showing ?u" by blast+
  from d 5 have D: "\<exists>s'. window_destroy quiet_env ex_one 1 = Some s' \<and> wm_invalid s'" by blast
  from u 6 have U: "\<exists>s'. winmgr_update quiet_env ex_one = Some s'
         \<and> \<not> wm_invalid s' \<and> \<not> invalid_leaf_showing s'" by blast
  from a0 1 2 4 b 3 D U show ?thesis by simp
qed

end
